theory Spec2Isabelle
  imports Complex_Main "HOL-Library.Word"
begin

unbundle bit_operations_syntax

section \<open>Numbers\<close>

text \<open>
  The elements of a \<^verbatim>\<open>Float32Array\<close> and the scalars of the source are IEEE numbers.
  The model keeps two kinds of value: a finite number, idealised as an exact real (no
  rounding, no overflow, no signed zero, no infinity), and \<^verbatim>\<open>NaN\<close>. Every arithmetic
  operation with a \<^verbatim>\<open>NaN\<close> operand yields \<^verbatim>\<open>NaN\<close>, and every comparison with a
  \<^verbatim>\<open>NaN\<close> operand is false, as in the source language. This type serves the
  transform, the functions built on it and the tensor path. \<^verbatim>\<open>preEmphasis\<close>, whose
  property is about the exact values stored, has a model with IEEE rounding of its own
  (see the section on pre-emphasis).
\<close>

datatype number = Fin real | NaN

fun fadd :: "number \<Rightarrow> number \<Rightarrow> number" where
  "fadd (Fin a) (Fin b) = Fin (a + b)"
| "fadd _ _ = NaN"

fun fsub :: "number \<Rightarrow> number \<Rightarrow> number" where
  "fsub (Fin a) (Fin b) = Fin (a - b)"
| "fsub _ _ = NaN"

fun fmul :: "number \<Rightarrow> number \<Rightarrow> number" where
  "fmul (Fin a) (Fin b) = Fin (a * b)"
| "fmul _ _ = NaN"

text \<open>
  Division is only ever applied to a non-zero finite divisor in the functions below (a
  length, or a total tested to be positive); a zero divisor, which would give an infinity
  in the source, is left as \<^verbatim>\<open>NaN\<close> here. \<^verbatim>\<open>Math.max\<close> returns \<^verbatim>\<open>NaN\<close> when either
  argument is \<^verbatim>\<open>NaN\<close>. \<^verbatim>\<open>Math.log\<close> of a negative number is \<^verbatim>\<open>NaN\<close>; its value at 0,
  minus infinity in the source, is outside the model and never requested, since the
  argument is floored at \<open>1e-10\<close> first.
\<close>

fun fdiv :: "number \<Rightarrow> number \<Rightarrow> number" where
  "fdiv (Fin a) (Fin b) = (if b = 0 then NaN else Fin (a / b))"
| "fdiv _ _ = NaN"

fun fmax :: "number \<Rightarrow> number \<Rightarrow> number" where
  "fmax (Fin a) (Fin b) = Fin (max a b)"
| "fmax _ _ = NaN"

fun flog :: "number \<Rightarrow> number" where
  "flog (Fin a) = (if 0 < a then Fin (ln a) else NaN)"
| "flog NaN = NaN"

fun fexp :: "number \<Rightarrow> number" where
  "fexp (Fin a) = Fin (exp a)"
| "fexp NaN = NaN"

fun fgt :: "number \<Rightarrow> number \<Rightarrow> bool" where
  "fgt (Fin a) (Fin b) = (a > b)"
| "fgt _ _ = False"

fun flt :: "number \<Rightarrow> number \<Rightarrow> bool" where
  "flt (Fin a) (Fin b) = (a < b)"
| "flt _ _ = False"

fun fge :: "number \<Rightarrow> number \<Rightarrow> bool" where
  "fge (Fin a) (Fin b) = (a \<ge> b)"
| "fge _ _ = False"

text \<open>
  Reading a typed array at an index outside its range gives \<^verbatim>\<open>undefined\<close>, which every
  arithmetic use converts to \<^verbatim>\<open>NaN\<close>. Writing outside the range is ignored, which is
  what \<^term>\<open>list_update\<close> does.
\<close>

definition getAt :: "number list \<Rightarrow> nat \<Rightarrow> number" where
  "getAt xs i = (if i < length xs then xs ! i else NaN)"

datatype error =
    NotPowerOfTwo    \<comment> \<open>\<^verbatim>\<open>Error('FFT length must be a power of 2')\<close>\<close>
  | EmptyTensorList  \<comment> \<open>the tensor library refuses to stack or concatenate an empty list\<close>
  | ShapeMismatch    \<comment> \<open>the tensor library refuses a slice beyond the tensor's shape\<close>

section \<open>The recursive transform\<close>

text \<open>
  The guard of \<^verbatim>\<open>FFT\<close> is \<^verbatim>\<open>(n & (n - 1)) !== 0\<close>. The bitwise operator works on the
  32-bit two's complement images of its operands, so the test is on 32-bit words; for
  \<open>n = 0\<close> the right operand is \<open>-1\<close>, all bits set.
\<close>

definition notPowerOfTwo :: "nat \<Rightarrow> bool" where
  "notPowerOfTwo n = ((word_of_nat n :: 32 word) AND (word_of_nat n - 1) \<noteq> 0)"

text \<open>The two halves built by the first loop: \<^verbatim>\<open>even[i] = signal[i * 2]\<close> and
  \<^verbatim>\<open>odd[i] = signal[i * 2 + 1]\<close> for \<open>i < n / 2\<close>. Past the guard and the base case
  \<open>n\<close> is \<open>0\<close> or even for every length below \<open>2^32\<close>, so \<^verbatim>\<open>n / 2\<close> is the integer
  quotient.\<close>

definition evenPart :: "number list \<Rightarrow> number list" where
  "evenPart signal = map (\<lambda>i. getAt signal (i * 2)) [0..<length signal div 2]"

definition oddPart :: "number list \<Rightarrow> number list" where
  "oddPart signal = map (\<lambda>i. getAt signal (i * 2 + 1)) [0..<length signal div 2]"

text \<open>One iteration of the combining loop, for index \<open>k\<close>: four writes into \<open>result\<close>.\<close>

definition butterfly ::
  "nat \<Rightarrow> number list \<Rightarrow> number list \<Rightarrow> number list \<Rightarrow> nat \<Rightarrow> number list" where
  "butterfly n evenFFT oddFFT result k =
     (let theta = - 2 * pi * real k / real n;
          re = Fin (cos theta);
          im = Fin (sin theta);
          oddRe = getAt oddFFT (k * 2);
          oddIm = getAt oddFFT (k * 2 + 1);
          tRe = fsub (fmul oddRe re) (fmul oddIm im);
          tIm = fadd (fmul oddRe im) (fmul oddIm re)
      in result
          [k * 2 := fadd (getAt evenFFT (k * 2)) tRe,
           k * 2 + 1 := fadd (getAt evenFFT (k * 2 + 1)) tIm,
           (k + n div 2) * 2 := fsub (getAt evenFFT (k * 2)) tRe,
           (k + n div 2) * 2 + 1 := fsub (getAt evenFFT (k * 2 + 1)) tIm])"

text \<open>The combining loop over \<open>k < n / 2\<close>, started on \<^verbatim>\<open>new Float32Array(n * 2)\<close>.\<close>

definition combine :: "nat \<Rightarrow> number list \<Rightarrow> number list \<Rightarrow> number list" where
  "combine n evenFFT oddFFT =
     foldl (butterfly n evenFFT oddFFT) (replicate (n * 2) (Fin 0)) [0..<n div 2]"

text \<open>
  \<^verbatim>\<open>FFT\<close> itself. The result is \<open>None\<close> when the recursion never returns,
  \<open>Some (Inl e)\<close> when it throws and \<open>Some (Inr spectrum)\<close> when it returns. The base
  case returns a copy of the one-element input.
\<close>

partial_function (option) FFT :: "number list \<Rightarrow> (error + number list) option" where
  "FFT signal =
     (let n = length signal in
      if notPowerOfTwo n then Some (Inl NotPowerOfTwo)
      else if n = 1 then Some (Inr signal)
      else
        Option.bind (FFT (evenPart signal)) (\<lambda>r1.
          case r1 of
            Inl e \<Rightarrow> Some (Inl e)
          | Inr evenFFT \<Rightarrow>
              Option.bind (FFT (oddPart signal)) (\<lambda>r2.
                case r2 of
                  Inl e \<Rightarrow> Some (Inl e)
                | Inr oddFFT \<Rightarrow> Some (Inr (combine n evenFFT oddFFT)))))"

section \<open>Derived operations and filters\<close>

text \<open>Sequencing of calls that may throw or not return: the first failure is the result.\<close>

definition bindE :: "(error + 'a) option \<Rightarrow> ('a \<Rightarrow> (error + 'b) option) \<Rightarrow> (error + 'b) option" where
  "bindE m f = Option.bind m (\<lambda>r. case r of Inl e \<Rightarrow> Some (Inl e) | Inr v \<Rightarrow> f v)"

text \<open>
  \<^verbatim>\<open>powerSpectrum\<close>: the buffer has \<^verbatim>\<open>n / 2 + 1\<close> slots (a fractional length is
  truncated by the typed-array constructor). Slot 0 is written first, then slots
  \<open>1 \<le> i < n / 2\<close>, then slot \<^verbatim>\<open>n / 2\<close> from \<^verbatim>\<open>fft[1]\<close>; for odd \<open>n\<close> (that is
  \<open>n = 1\<close>) the last index is not an integer and that write is ignored.
\<close>

definition powerSpectrum :: "number list \<Rightarrow> (error + number list) option" where
  "powerSpectrum signal =
     bindE (FFT signal) (\<lambda>fft.
       let n = length signal;
           power0 = replicate (n div 2 + 1) (Fin 0);
           power1 = power0[0 := fadd (fmul (getAt fft 0) (getAt fft 0))
                                     (fmul (getAt fft 1) (getAt fft 1))];
           power2 = foldl (\<lambda>power i. power[i :=
                       fadd (fmul (getAt fft (i * 2)) (getAt fft (i * 2)))
                            (fmul (getAt fft (i * 2 + 1)) (getAt fft (i * 2 + 1)))])
                     power1 [1..<n div 2];
           power3 = (if even n then power2[n div 2 := fmul (getAt fft 1) (getAt fft 1)]
                     else power2)
       in Some (Inr power3))"

text \<open>
  \<^verbatim>\<open>lowPassFilter\<close>: transform, zero the bins with \<open>cutoff < i/n < 1 - cutoff\<close>, transform
  the resulting buffer again, and return \<^verbatim>\<open>result[i * 2] / n\<close> for \<open>i < n\<close>. With a
  cutoff of one half no bin is zeroed, which leaves the bare transform, transform, scale
  sequence.
\<close>

definition lowPassFilter :: "number list \<Rightarrow> number \<Rightarrow> (error + number list) option" where
  "lowPassFilter signal cutoffFreq =
     (let n = length signal in
      bindE (FFT signal) (\<lambda>fft0.
        let fft = foldl (\<lambda>fft i.
                    let freq = fdiv (Fin (real i)) (Fin (real n))
                    in if fgt freq cutoffFreq \<and> flt freq (fsub (Fin 1) cutoffFreq)
                       then fft[i * 2 := Fin 0, i * 2 + 1 := Fin 0]
                       else fft)
                  fft0 [0..<n]
        in bindE (FFT fft) (\<lambda>result.
             Some (Inr (map (\<lambda>i. fdiv (getAt result (i * 2)) (Fin (real n))) [0..<n])))))"

text \<open>\<^verbatim>\<open>spectralCentroid\<close>: one loop accumulating both sums, then the guarded quotient.\<close>

definition spectralCentroid :: "number list \<Rightarrow> number \<Rightarrow> (error + number) option" where
  "spectralCentroid signal sampleRate =
     bindE (powerSpectrum signal) (\<lambda>power.
       let (weightedSum, totalPower) =
             foldl (\<lambda>(weightedSum, totalPower) i.
                      let frequency = fdiv (fmul (Fin (real i)) sampleRate)
                                           (Fin (real (2 * length power)))
                      in (fadd weightedSum (fmul frequency (getAt power i)),
                          fadd totalPower (getAt power i)))
                   (Fin 0, Fin 0) [0..<length power]
       in Some (Inr (if fgt totalPower (Fin 0) then fdiv weightedSum totalPower else Fin 0)))"

text \<open>\<^verbatim>\<open>spectralFlatness\<close>: floor every bin at \<open>1e-10\<close> in place, then the geometric and
  the arithmetic mean, then the guarded quotient.\<close>

definition spectralFlatness :: "number list \<Rightarrow> (error + number) option" where
  "spectralFlatness signal =
     bindE (powerSpectrum signal) (\<lambda>power0.
       let power = foldl (\<lambda>power i. power[i := fmax (getAt power i) (Fin (1 / 10 ^ 10))])
                     power0 [0..<length power0];
           logSum = foldl (\<lambda>geometricMean i. fadd geometricMean (flog (getAt power i)))
                     (Fin 0) [0..<length power];
           geometricMean = fexp (fdiv logSum (Fin (real (length power))));
           total = foldl (\<lambda>arithmeticMean i. fadd arithmeticMean (getAt power i))
                     (Fin 0) [0..<length power];
           arithmeticMean = fdiv total (Fin (real (length power)))
       in Some (Inr (if fgt arithmeticMean (Fin 0) then fdiv geometricMean arithmeticMean
                     else Fin 0)))"

section \<open>Pre-emphasis, with IEEE rounding\<close>

text \<open>
  \<^verbatim>\<open>preEmphasis\<close> stores every result into a \<^verbatim>\<open>Float32Array\<close>, and what it returns is
  the stored value: the double-precision result rounded to single precision, or an
  infinity on overflow. Its model therefore carries the rounding. An IEEE value is a finite
  real (\<open>Finite 0\<close> is \<open>+0\<close>), \<open>-0\<close>, an infinity or \<^verbatim>\<open>NaN\<close>.
\<close>

datatype ieee = Finite real | NegZero | PosInf | NegInf | NotANumber

text \<open>
  Rounding of a non-zero real to a binary format with \<open>p\<close> significant bits and exponents
  \<open>emin .. emax\<close>, to nearest, ties to even. The exponent of \<open>r\<close> is \<open>\<lfloor>log\<^sub>2 |r|\<rfloor>\<close>, not
  below \<open>emin\<close> (subnormal numbers share the quantum of \<open>emin\<close>); \<open>|r|\<close> is rounded to a
  multiple of the quantum \<open>2^(e - (p - 1))\<close>; a result of \<open>2^(emax + 1)\<close> or more is an
  infinity, and a result of 0 keeps the sign of \<open>r\<close>. Double precision is
  \<open>p = 53\<close>, \<open>-1022 .. 1023\<close>; single precision is \<open>p = 24\<close>, \<open>-126 .. 127\<close>.
\<close>

definition pow2 :: "int \<Rightarrow> real" where
  "pow2 k = (if 0 \<le> k then 2 ^ nat k else 1 / 2 ^ nat (- k))"

definition roundHalfEven :: "real \<Rightarrow> int" where
  "roundHalfEven y =
     (let f = \<lfloor>y\<rfloor>; d = y - of_int f
      in if d < 1 / 2 then f else if 1 / 2 < d then f + 1 else if even f then f else f + 1)"

definition roundTo :: "nat \<Rightarrow> int \<Rightarrow> int \<Rightarrow> real \<Rightarrow> ieee" where
  "roundTo p emin emax r =
     (if r = 0 then Finite 0
      else
        let e = max \<lfloor>log 2 \<bar>r\<bar>\<rfloor> emin;
            q = pow2 (e - (int p - 1));
            n = roundHalfEven (\<bar>r\<bar> / q);
            m = of_int n * q
        in if pow2 (emax + 1) \<le> m then (if 0 < r then PosInf else NegInf)
           else if n = 0 then (if 0 < r then Finite 0 else NegZero)
           else Finite (sgn r * m))"

definition roundDouble :: "real \<Rightarrow> ieee" where
  "roundDouble r = roundTo 53 (- 1022) 1023 r"

definition roundFloat32 :: "real \<Rightarrow> ieee" where
  "roundFloat32 r = roundTo 24 (- 126) 127 r"

text \<open>Conversion of a value to double and to single precision (\<^verbatim>\<open>Math.fround\<close>, and
  what a store into a \<^verbatim>\<open>Float32Array\<close> does).\<close>

fun toDouble :: "ieee \<Rightarrow> ieee" where
  "toDouble (Finite r) = roundDouble r"
| "toDouble v = v"

fun toFloat32 :: "ieee \<Rightarrow> ieee" where
  "toFloat32 (Finite r) = roundFloat32 r"
| "toFloat32 v = v"

text \<open>
  Double-precision multiplication and subtraction, as the operators \<^verbatim>\<open>*\<close> and \<^verbatim>\<open>-\<close>
  compute them: \<^verbatim>\<open>NaN\<close> absorbs, infinity times zero and infinity minus infinity are
  \<^verbatim>\<open>NaN\<close>, a zero product has the product of the signs, an exact zero sum is \<open>+0\<close>
  unless both terms are \<open>-0\<close>, and every other finite result is the exact result rounded.
  \<open>a - b\<close> is \<open>a + (-b)\<close>.
\<close>

fun isZero :: "ieee \<Rightarrow> bool" where
  "isZero (Finite r) = (r = 0)"
| "isZero NegZero = True"
| "isZero _ = False"

fun isInf :: "ieee \<Rightarrow> bool" where
  "isInf PosInf = True"
| "isInf NegInf = True"
| "isInf _ = False"

fun isNeg :: "ieee \<Rightarrow> bool" where
  "isNeg (Finite r) = (r < 0)"
| "isNeg NegZero = True"
| "isNeg NegInf = True"
| "isNeg _ = False"

fun valueOf :: "ieee \<Rightarrow> real" where
  "valueOf (Finite r) = r"
| "valueOf _ = 0"

fun negate :: "ieee \<Rightarrow> ieee" where
  "negate (Finite r) = (if r = 0 then NegZero else Finite (- r))"
| "negate NegZero = Finite 0"
| "negate PosInf = NegInf"
| "negate NegInf = PosInf"
| "negate NotANumber = NotANumber"

definition mulDouble :: "ieee \<Rightarrow> ieee \<Rightarrow> ieee" where
  "mulDouble a b =
     (if a = NotANumber \<or> b = NotANumber then NotANumber
      else if isInf a \<or> isInf b
        then (if isZero a \<or> isZero b then NotANumber
              else if isNeg a = isNeg b then PosInf else NegInf)
      else if isZero a \<or> isZero b
        then (if isNeg a = isNeg b then Finite 0 else NegZero)
      else roundDouble (valueOf a * valueOf b))"

definition addDouble :: "ieee \<Rightarrow> ieee \<Rightarrow> ieee" where
  "addDouble a b =
     (if a = NotANumber \<or> b = NotANumber then NotANumber
      else if isInf a then (if isInf b \<and> isNeg a \<noteq> isNeg b then NotANumber else a)
      else if isInf b then b
      else if valueOf a + valueOf b = 0
        then (if a = NegZero \<and> b = NegZero then NegZero else Finite 0)
      else roundDouble (valueOf a + valueOf b))"

definition subDouble :: "ieee \<Rightarrow> ieee \<Rightarrow> ieee" where
  "subDouble a b = addDouble a (negate b)"

text \<open>
  A list stands for the typed array built from its values, so an element is read as the
  single-precision value the array holds; outside the range the read is \<^verbatim>\<open>undefined\<close>,
  \<^verbatim>\<open>NaN\<close> in arithmetic. The parameter \<open>alpha\<close> is a number, that is a double (its
  default is the double nearest to 0.97).
\<close>

definition readFloat32 :: "ieee list \<Rightarrow> nat \<Rightarrow> ieee" where
  "readFloat32 xs i = (if i < length xs then toFloat32 (xs ! i) else NotANumber)"

text \<open>\<^verbatim>\<open>preEmphasis\<close>: \<^verbatim>\<open>result[0] = signal[0]\<close>, then for \<open>1 \<le> i < length\<close> the store of
  \<^verbatim>\<open>signal[i] - alpha * signal[i - 1]\<close>. A write outside the range is ignored.\<close>

definition preEmphasis :: "ieee list \<Rightarrow> ieee \<Rightarrow> ieee list" where
  "preEmphasis signal alpha =
     (let result0 = replicate (length signal) (Finite 0);
          result1 = result0[0 := toFloat32 (readFloat32 signal 0)]
      in foldl (\<lambda>result i. result[i :=
                 toFloat32 (subDouble (readFloat32 signal i)
                              (mulDouble (toDouble alpha) (readFloat32 signal (i - 1))))])
           result1 [1..<length signal])"

section \<open>The framer and the cepstral path\<close>

text \<open>
  The class \<^verbatim>\<open>AudioProcessor\<close> with its six fields; its constructor sets no field, so an
  instance holds the initial values below.
\<close>

record AudioProcessor =
  sampleRate :: nat
  frameLength :: nat
  frameStep :: nat
  fftSize :: nat
  numCoeffs :: nat
  batchSize :: nat

definition newAudioProcessor :: AudioProcessor where
  "newAudioProcessor =
     \<lparr>sampleRate = 16000, frameLength = 400, frameStep = 160, fftSize = 512,
      numCoeffs = 20, batchSize = 32\<rparr>"

subsection \<open>Tensor operations used by the class\<close>

text \<open>
  The class computes on tensors of the TensorFlow.js library, which is not part of the
  repository. A rank-1 tensor is modelled as the list of its values and a rank-2 tensor as
  the list of its rows (a batch is never empty where the class builds one); every
  operation is modelled by what the library documents for it, over the arithmetic of the
  section on numbers.
  \<^item> \<^verbatim>\<open>t.slice([begin], [n])\<close> is the \<open>n\<close> entries from \<open>begin\<close> on (along the
    first axis for a rank-2 tensor, all columns kept).
  \<^item> \<^verbatim>\<open>tf.pad(t, [[before, after]])\<close> adds zeros on both sides.
  \<^item> \<^verbatim>\<open>tf.stack\<close> and \<^verbatim>\<open>tf.concat\<close> fail on an empty list of tensors (their argument
    check, "Pass at least one tensor").
\<close>

definition tf_slice :: "'a list \<Rightarrow> nat \<Rightarrow> nat \<Rightarrow> 'a list" where
  "tf_slice t begin n = take n (drop begin t)"

definition tf_pad :: "number list \<Rightarrow> nat \<Rightarrow> nat \<Rightarrow> number list" where
  "tf_pad t before after = replicate before (Fin 0) @ t @ replicate after (Fin 0)"

definition tf_stack :: "number list list \<Rightarrow> error + number list list" where
  "tf_stack tensors = (if tensors = [] then Inl EmptyTensorList else Inr tensors)"

definition tf_concat :: "number list list list \<Rightarrow> error + number list list" where
  "tf_concat tensors = (if tensors = [] then Inl EmptyTensorList else Inr (concat tensors))"

text \<open>
  \<^item> \<^verbatim>\<open>tf.signal.hammingWindow(n)\<close> is the cosine window \<open>0.54 - 0.46 cos(2 \<pi> i / d)\<close>
    with \<open>d = n + even - 1\<close>, where \<open>even\<close> is 1 for an even \<open>n\<close> and 0 otherwise.
  \<^item> \<^verbatim>\<open>frames.mul(window)\<close> multiplies every row by the window, entry by entry
    (broadcasting; the rows have the window's length).
  \<^item> \<^verbatim>\<open>tf.spectral.rfft(x)\<close>, called with no length argument, transforms every row at
    its own length \<open>n\<close> and keeps the bins \<open>0 .. n div 2\<close>, each a complex value (a pair
    here): bin \<open>k\<close> is the sum of \<open>x[j] * exp(-2 \<pi> i j k / n)\<close>.
  \<^item> \<^verbatim>\<open>abs\<close>, \<^verbatim>\<open>square\<close>, \<^verbatim>\<open>div\<close>, \<^verbatim>\<open>add\<close> and \<^verbatim>\<open>log\<close> work entry by entry.
  \<^item> \<^verbatim>\<open>tf.matMul(a, b)\<close> is the matrix product; \<^verbatim>\<open>x.shape[1]\<close> is the row length.
\<close>

fun fcos :: "number \<Rightarrow> number" where
  "fcos (Fin a) = Fin (cos a)"
| "fcos NaN = NaN"

fun fsqrt :: "number \<Rightarrow> number" where
  "fsqrt (Fin a) = (if 0 \<le> a then Fin (sqrt a) else NaN)"
| "fsqrt NaN = NaN"

definition tf_hammingWindow :: "nat \<Rightarrow> number list" where
  "tf_hammingWindow windowLength =
     (let even = 1 - windowLength mod 2
      in map (\<lambda>i. let cosArg = fdiv (Fin (2 * pi * real i))
                                     (Fin (real windowLength + real even - 1))
                  in fsub (Fin (54 / 100)) (fmul (Fin (46 / 100)) (fcos cosArg)))
           [0..<windowLength])"

definition tf_mul :: "number list list \<Rightarrow> number list \<Rightarrow> number list list" where
  "tf_mul a b = map (\<lambda>row. map2 fmul row b) a"

definition rfftBin :: "number list \<Rightarrow> nat \<Rightarrow> number \<times> number" where
  "rfftBin x k =
     (let n = length x
      in (foldl fadd (Fin 0)
            (map (\<lambda>j. fmul (x ! j) (Fin (cos (2 * pi * real j * real k / real n)))) [0..<n]),
          foldl fadd (Fin 0)
            (map (\<lambda>j. fmul (x ! j) (Fin (- sin (2 * pi * real j * real k / real n)))) [0..<n])))"

definition tf_rfft :: "number list list \<Rightarrow> (number \<times> number) list list" where
  "tf_rfft input = map (\<lambda>x. map (rfftBin x) [0..<length x div 2 + 1]) input"

definition elementwise :: "('a \<Rightarrow> 'b) \<Rightarrow> 'a list list \<Rightarrow> 'b list list" where
  "elementwise f x = map (map f) x"

definition complexAbs :: "number \<times> number \<Rightarrow> number" where
  "complexAbs c = fsqrt (fadd (fmul (fst c) (fst c)) (fmul (snd c) (snd c)))"

definition cols :: "'a list list \<Rightarrow> nat" where
  "cols x = (case x of [] \<Rightarrow> 0 | row # _ \<Rightarrow> length row)"

definition tf_matMul :: "number list list \<Rightarrow> number list list \<Rightarrow> number list list" where
  "tf_matMul a b =
     map (\<lambda>row. map (\<lambda>c. foldl fadd (Fin 0) (map (\<lambda>r. fmul (row ! r) (b ! r ! c)) [0..<length b]))
                  [0..<cols b]) a"

subsection \<open>Framing\<close>

text \<open>
  The body of the \<^verbatim>\<open>while\<close> loop of \<^verbatim>\<open>frame\<close>: the frame that starts at \<open>start\<close>,
  padded when fewer than \<open>frameLength\<close> samples remain.
\<close>

definition nextFrame :: "AudioProcessor \<Rightarrow> number list \<Rightarrow> nat \<Rightarrow> number list" where
  "nextFrame p signal start =
     (let end = min (start + frameLength p) (length signal)
      in if end - start < frameLength p
         then tf_pad (tf_slice signal start (end - start)) 0 (frameLength p - (end - start))
         else tf_slice signal start (frameLength p))"

text \<open>
  The loop itself, with the list \<open>frames\<close> and the offset \<open>start\<close> as its state. It
  need not end (a step of 0 never advances), hence the option type: \<open>None\<close> is a loop
  that runs forever. \<^verbatim>\<open>frame\<close> then stacks the frames.
\<close>

partial_function (option) frameLoop ::
  "AudioProcessor \<Rightarrow> number list \<Rightarrow> number list list \<Rightarrow> nat \<Rightarrow> number list list option" where
  "frameLoop p signal frames start =
     (if start < length signal
      then frameLoop p signal (frames @ [nextFrame p signal start]) (start + frameStep p)
      else Some frames)"

definition frame :: "AudioProcessor \<Rightarrow> number list \<Rightarrow> (error + number list list) option" where
  "frame p signal = Option.bind (frameLoop p signal [] 0) (\<lambda>frames. Some (tf_stack frames))"

subsection \<open>Cepstral coefficients\<close>

text \<open>
  \<^verbatim>\<open>dct\<close>: the cosine matrix has entry \<open>cos(k * 2 * (n + 1) * (\<pi> / (2 * numBins)))\<close> in
  row \<open>n\<close> and column \<open>k\<close>, and the batch is multiplied by it from the left.
\<close>

definition dctMatrix :: "nat \<Rightarrow> number list list" where
  "dctMatrix numBins =
     map (\<lambda>n. map (\<lambda>k. Fin (cos (real k * 2 * (real n + 1) * (pi / (2 * real numBins)))))
                [0..<numBins]) [0..<numBins]"

definition dct :: "number list list \<Rightarrow> number list list" where
  "dct x = (let numBins = cols x in tf_matMul x (dctMatrix numBins))"

text \<open>
  \<^verbatim>\<open>computeLFCC\<close>. Its first three statements, up to the value the source names
  \<^verbatim>\<open>powerSpectrum\<close>, are \<open>lfccPowerSpectrum\<close>: window, \<^verbatim>\<open>rfft\<close>, squared magnitude
  divided by \<open>fftSize\<close>. The frames go to \<^verbatim>\<open>rfft\<close> as they are; \<open>fftSize\<close> occurs only
  as that divisor. The reshape to two dimensions changes nothing on a rank-2 tensor. The
  last slice keeps the first \<open>numCoeffs\<close> columns and fails when there are fewer.
\<close>

definition lfccPowerSpectrum :: "AudioProcessor \<Rightarrow> number list list \<Rightarrow> number list list" where
  "lfccPowerSpectrum p frames =
     (let hammingWindow = tf_hammingWindow (frameLength p);
          windowedFrames = tf_mul frames hammingWindow;
          fft = tf_rfft windowedFrames
      in elementwise (\<lambda>v. fdiv v (Fin (real (fftSize p))))
           (elementwise (\<lambda>v. fmul v v) (elementwise complexAbs fft)))"

definition computeLFCC :: "AudioProcessor \<Rightarrow> number list list \<Rightarrow> error + number list list" where
  "computeLFCC p frames =
     (let powerSpectrum = lfccPowerSpectrum p frames;
          logPowerSpectrum = elementwise flog
                               (elementwise (\<lambda>v. fadd v (Fin (1 / 10 ^ 6))) powerSpectrum);
          d = dct logPowerSpectrum
      in if numCoeffs p \<le> cols d then Inr (map (take (numCoeffs p)) d) else Inl ShapeMismatch)"

text \<open>
  \<^verbatim>\<open>extractFeatures\<close>: frame the signal, run \<^verbatim>\<open>computeLFCC\<close> on consecutive batches
  of at most \<open>batchSize\<close> frames (the loop, with the list of results and the index
  \<open>i\<close> as its state), and concatenate the results.
\<close>

partial_function (option) batchLoop ::
  "AudioProcessor \<Rightarrow> number list list \<Rightarrow> number list list list \<Rightarrow> nat
     \<Rightarrow> (error + number list list list) option" where
  "batchLoop p frames lfccFeatures i =
     (if i < length frames
      then let thisBatch = min (batchSize p) (length frames - i);
               batch = tf_slice frames i thisBatch
           in case computeLFCC p batch of
                Inl e \<Rightarrow> Some (Inl e)
              | Inr batchLFCC \<Rightarrow> batchLoop p frames (lfccFeatures @ [batchLFCC]) (i + batchSize p)
      else Some (Inr lfccFeatures))"

definition extractFeatures :: "AudioProcessor \<Rightarrow> number list \<Rightarrow> (error + number list list) option" where
  "extractFeatures p audioData =
     bindE (frame p audioData) (\<lambda>frames.
       bindE (batchLoop p frames [] 0) (\<lambda>lfccFeatures. Some (tf_concat lfccFeatures)))"

section \<open>Properties of the transform\<close>

subsection \<open>The guard\<close>

lemma pow2_and_pred: "(2 ^ k :: 32 word) AND (2 ^ k - 1) = 0"
proof -
  have "(2 ^ k :: 32 word) AND mask k = take_bit k (2 ^ k)"
    by (simp only: take_bit_eq_mask)
  also have "\<dots> = 0"
    by (rule bit_eqI) (simp add: bit_take_bit_iff bit_exp_iff)
  finally show ?thesis
    by (simp only: mask_eq_exp_minus_1)
qed

lemma pow2_passes: "\<not> notPowerOfTwo (2 ^ k)"
  unfolding notPowerOfTwo_def by (simp add: pow2_and_pred)

lemma zero_passes: "\<not> notPowerOfTwo 0"
  by (simp add: notPowerOfTwo_def)

lemma two_passes: "\<not> notPowerOfTwo (Suc (Suc 0))"
  by (simp add: notPowerOfTwo_def)

text \<open>For a non-zero length below \<open>2^32\<close> the guard rejects exactly the lengths that are
  not powers of two.\<close>

lemma and_pred_nat:
  "0 < n \<Longrightarrow> (n AND (n - 1) = 0) = (\<exists>k. n = 2 ^ k)" for n :: nat
proof (induction n rule: less_induct)
  case (less n)
  show ?case
  proof (cases "even n")
    case True
    then obtain m where n: "n = 2 * m" by (elim evenE)
    with less.prems have m: "0 < m" by simp
    have pred: "n - 1 = 2 * (m - 1) + 1" using m n by simp
    have "n AND (n - 1) = 2 * (m AND (m - 1))"
      unfolding pred unfolding n
      by (subst and_rec) simp
    then have "(n AND (n - 1) = 0) = (m AND (m - 1) = 0)" by simp
    also have "\<dots> = (\<exists>k. m = 2 ^ k)"
      using less.IH[of m] m n by simp
    also have "\<dots> = (\<exists>k. n = 2 ^ k)"
    proof
      assume "\<exists>k. m = 2 ^ k"
      then obtain k where "m = 2 ^ k" ..
      then have "n = 2 ^ Suc k" using n by simp
      then show "\<exists>k. n = 2 ^ k" ..
    next
      assume "\<exists>k. n = 2 ^ k"
      then obtain k where k: "n = 2 ^ k" ..
      with True m n obtain j where "k = Suc j" by (cases k) auto
      with k n have "m = 2 ^ j" by simp
      then show "\<exists>k. m = 2 ^ k" ..
    qed
    finally show ?thesis .
  next
    case False
    then obtain m where n: "n = 2 * m + 1" by (elim oddE)
    have "n AND (n - 1) = 2 * m"
      unfolding n by (subst and_rec) simp
    moreover have "(\<exists>k. n = 2 ^ k) = (m = 0)"
    proof
      assume "\<exists>k. n = 2 ^ k"
      then obtain k where k: "n = 2 ^ k" ..
      with False have "k = 0" by (cases k) auto
      with k n show "m = 0" by simp
    next
      assume "m = 0"
      then have "n = 2 ^ 0" using n by simp
      then show "\<exists>k. n = 2 ^ k" ..
    qed
    ultimately show ?thesis by simp
  qed
qed

lemma notPowerOfTwo_iff:
  assumes "0 < n" and "n < 2 ^ 32"
  shows "notPowerOfTwo n = (\<nexists>k. n = 2 ^ k)"
proof -
  have "(word_of_nat n :: 32 word) - 1 = word_of_nat (n - 1)"
    using assms(1) by (simp add: of_nat_diff)
  then have "(word_of_nat n :: 32 word) AND (word_of_nat n - 1) = word_of_nat (n AND (n - 1))"
    by (simp add: of_nat_and_eq)
  moreover have "int (n AND (n - 1)) \<le> int n"
    unfolding of_nat_and_eq by (rule AND_upper1) simp
  then have small: "n AND (n - 1) < 2 ^ 32"
    using assms(2) by simp
  have "((word_of_nat (n AND (n - 1)) :: 32 word) = 0) = (n AND (n - 1) = 0)"
  proof
    assume "(word_of_nat (n AND (n - 1)) :: 32 word) = 0"
    then have "2 ^ 32 dvd n AND (n - 1)" by (simp add: word_of_nat_eq_0_iff)
    then show "n AND (n - 1) = 0" using small by (auto dest: dvd_imp_le)
  next
    assume "n AND (n - 1) = 0"
    then show "(word_of_nat (n AND (n - 1)) :: 32 word) = 0" by simp
  qed
  ultimately show ?thesis
    using and_pred_nat[OF assms(1)] by (simp add: notPowerOfTwo_def)
qed

subsection \<open>NaN is absorbing\<close>

lemma fmul_NaN [simp]: "fmul NaN x = NaN" "fmul x NaN = NaN"
  by (cases x; simp)+

lemma fadd_NaN [simp]: "fadd NaN x = NaN" "fadd x NaN = NaN"
  by (cases x; simp)+

lemma fsub_NaN [simp]: "fsub NaN x = NaN" "fsub x NaN = NaN"
  by (cases x; simp)+

subsection \<open>The combining loop\<close>

lemma length_butterfly: "length (butterfly n e d r k) = length r"
  by (simp add: butterfly_def Let_def)

lemma length_foldl_butterfly: "length (foldl (butterfly n e d) r ks) = length r"
  by (induction ks arbitrary: r) (simp_all add: length_butterfly)

lemma length_combine: "length (combine n e d) = n * 2"
  by (simp add: combine_def length_foldl_butterfly)

lemma nth_update_cases:
  "j < length xs \<Longrightarrow> xs[i := x] ! j = (if i = j then x else xs ! j)"
  by (cases "i = j") simp_all

text \<open>When the imaginary part read from the odd half is \<^verbatim>\<open>NaN\<close>, both products of the
  twiddle multiplication are \<^verbatim>\<open>NaN\<close>, and so are the four values written.\<close>

lemma butterfly_NaN:
  assumes "getAt d (k * 2 + 1) = NaN"
  shows "butterfly n e d r k =
     r[k * 2 := NaN, k * 2 + 1 := NaN, (k + n div 2) * 2 := NaN, (k + n div 2) * 2 + 1 := NaN]"
  using assms by (simp add: butterfly_def Let_def)

lemma foldl_butterfly_NaN:
  assumes d: "\<forall>k < m. getAt d (k * 2 + 1) = NaN"
    and j: "j < length r"
    and hit: "j div 2 < m \<or> (2 * (n div 2) \<le> j \<and> (j - 2 * (n div 2)) div 2 < m)"
  shows "foldl (butterfly n e d) r [0..<m] ! j = NaN"
  using d hit
proof (induction m)
  case 0
  then show ?case by simp
next
  case (Suc m)
  let ?r = "foldl (butterfly n e d) r [0..<m]"
  have len: "length ?r = length r" by (rule length_foldl_butterfly)
  have step: "foldl (butterfly n e d) r [0..<Suc m] =
     ?r[m * 2 := NaN, m * 2 + 1 := NaN, (m + n div 2) * 2 := NaN, (m + n div 2) * 2 + 1 := NaN]"
    using Suc.prems(1) by (simp add: butterfly_NaN)
  show ?case
  proof (cases "j div 2 < m \<or> (2 * (n div 2) \<le> j \<and> (j - 2 * (n div 2)) div 2 < m)")
    case True
    then have "?r ! j = NaN" using Suc.IH Suc.prems(1) by simp
    then show ?thesis
      unfolding step using j len by (simp add: nth_update_cases)
  next
    case False
    define h where "h = n div 2"
    have half: "a = m * 2 \<or> a = m * 2 + 1" if "a div 2 = m" for a :: nat
      using that by arith
    from False Suc.prems(2)
    have "j div 2 = m \<or> (2 * h \<le> j \<and> (j - 2 * h) div 2 = m)"
      unfolding h_def by auto
    then have "j = m * 2 \<or> j = m * 2 + 1 \<or> j = (m + h) * 2 \<or> j = (m + h) * 2 + 1"
    proof
      assume "j div 2 = m"
      then show ?thesis using half[of j] by blast
    next
      assume b: "2 * h \<le> j \<and> (j - 2 * h) div 2 = m"
      then have "j - 2 * h = m * 2 \<or> j - 2 * h = m * 2 + 1" using half by blast
      with b show ?thesis by (auto simp: algebra_simps)
    qed
    then consider "j = m * 2" | "j = m * 2 + 1"
      | "j = (m + n div 2) * 2" | "j = (m + n div 2) * 2 + 1"
      unfolding h_def by blast
    then show ?thesis
    proof cases
      case 1 then show ?thesis unfolding step using j len by (simp add: nth_update_cases)
    next
      case 2 then show ?thesis unfolding step using j len by (simp add: nth_update_cases)
    next
      case 3 then show ?thesis unfolding step using j len by (simp add: nth_update_cases)
    next
      case 4 then show ?thesis unfolding step using j len by (simp add: nth_update_cases)
    qed
  qed
qed

lemma combine_NaN:
  assumes "even n" and "\<forall>k < n div 2. getAt d (k * 2 + 1) = NaN"
  shows "combine n e d = replicate (n * 2) NaN"
proof (rule nth_equalityI)
  show "length (combine n e d) = length (replicate (n * 2) NaN)"
    by (simp add: length_combine)
next
  fix j assume "j < length (combine n e d)"
  then have j: "j < n * 2" by (simp add: length_combine)
  obtain h where n: "n = 2 * h" using assms(1) by (elim evenE)
  have "j div 2 < h \<or> (2 * h \<le> j \<and> (j - 2 * h) div 2 < h)"
    using j unfolding n by arith
  then have "j div 2 < n div 2 \<or> (2 * (n div 2) \<le> j \<and> (j - 2 * (n div 2)) div 2 < n div 2)"
    unfolding n by simp
  then have "foldl (butterfly n e d) (replicate (n * 2) (Fin 0)) [0..<n div 2] ! j = NaN"
    using assms(2) j by (intro foldl_butterfly_NaN) simp_all
  then show "combine n e d ! j = replicate (n * 2) NaN ! j"
    using j by (simp add: combine_def)
qed

subsection \<open>What the transform returns\<close>

lemma FFT_single: "FFT [x] = Some (Inr [x])"
  by (subst FFT.simps) (simp add: notPowerOfTwo_def)

lemma FFT_returns_nonempty:
  assumes "FFT signal = Some r"
  shows "signal \<noteq> []"
proof (rule FFT.raw_induct[where P = "\<lambda>x y. x \<noteq> []", OF _ assms], goal_cases)
  case (1 F s y)
  show ?case
  proof
    assume "s = []"
    with 1(2) obtain r1 where "F [] = Some r1"
      by (auto simp: zero_passes Let_def evenPart_def split: Option.bind_splits)
    with 1(1) show False by blast
  qed
qed

lemma length_halves:
  "length (evenPart signal) = length signal div 2"
  "length (oddPart signal) = length signal div 2"
  by (simp_all add: evenPart_def oddPart_def)

text \<open>For every length \<open>2^k\<close> with \<open>k \<ge> 1\<close> the spectrum is \<open>2 * 2^k\<close> values, all of
  them \<^verbatim>\<open>NaN\<close>: at length 2 the halves are the one-element base results, whose imaginary
  slot (index 1) does not exist, and from there \<^verbatim>\<open>NaN\<close> spreads upwards.\<close>

lemma FFT_pow2:
  "length signal = 2 ^ Suc k \<Longrightarrow> FFT signal = Some (Inr (replicate (2 ^ Suc k * 2) NaN))"
proof (induction k arbitrary: signal)
  case 0
  then obtain a b where s: "signal = [a, b]"
    by (cases signal; cases "tl signal"; auto)
  have "combine (Suc (Suc 0)) [a] [b] = replicate 4 NaN"
    using combine_NaN[of "Suc (Suc 0)" "[b]" "[a]"] by (simp add: getAt_def)
  then show ?case
    unfolding s
    by (subst FFT.simps) (simp add: FFT_single getAt_def two_passes evenPart_def oddPart_def)
next
  case (Suc k)
  let ?n = "length signal"
  let ?half = "replicate (2 ^ Suc k * 2) NaN"
  have le: "length (evenPart signal) = 2 ^ Suc k" "length (oddPart signal) = 2 ^ Suc k"
    using Suc.prems by (simp_all add: length_halves)
  have e: "FFT (evenPart signal) = Some (Inr ?half)"
    using le(1) by (rule Suc.IH)
  have d: "FFT (oddPart signal) = Some (Inr ?half)"
    using le(2) by (rule Suc.IH)
  have ne1: "?n \<noteq> 1" using Suc.prems by simp
  have pass: "\<not> notPowerOfTwo ?n" using Suc.prems pow2_passes[of "Suc (Suc k)"] by simp
  have c: "combine ?n ?half ?half = replicate (2 ^ Suc (Suc k) * 2) NaN"
    unfolding Suc.prems by (rule combine_NaN) (simp_all add: getAt_def)
  have "FFT signal =
      Option.bind (FFT (evenPart signal)) (\<lambda>r1. case r1 of Inl e \<Rightarrow> Some (Inl e)
        | Inr evenFFT \<Rightarrow> Option.bind (FFT (oddPart signal)) (\<lambda>r2. case r2 of Inl e \<Rightarrow> Some (Inl e)
            | Inr oddFFT \<Rightarrow> Some (Inr (combine ?n evenFFT oddFFT))))"
    by (subst FFT.simps) (simp only: Let_def ne1 pass if_False)
  also have "\<dots> = Some (Inr (combine ?n ?half ?half))"
    by (simp only: e d bind.simps sum.case)
  finally show ?case
    by (simp only: c)
qed

lemma FFT_pow2_cases:
  assumes "length signal = 2 ^ k"
  shows "FFT signal = Some (Inr (if k = 0 then signal else replicate (2 ^ k * 2) NaN))"
proof (cases k)
  case 0
  with assms obtain x where "signal = [x]"
    by (cases signal) auto
  with 0 show ?thesis by (simp add: FFT_single)
next
  case (Suc j)
  with assms FFT_pow2[of signal j] show ?thesis by simp
qed

lemma FFT_rejects:
  assumes "0 < length signal" and "length signal < 2 ^ 32" and "\<nexists>k. length signal = 2 ^ k"
  shows "FFT signal = Some (Inl NotPowerOfTwo)"
  using assms(3) by (subst FFT.simps) (simp add: notPowerOfTwo_iff[OF assms(1,2)])

text \<open>
  C10. For every input whose length is a power of two (at least 1), the recursive
  transform returns: the model's result is \<open>Some\<close> spectrum, never the non-returning
  \<open>None\<close>. Each recursive call is on a half of the length, \<open>2^(k-1)\<close> for a length
  \<open>2^k\<close> with \<open>k \<ge> 1\<close>, which is strictly smaller.
\<close>

theorem FFT_terminates:
  assumes "length signal = 2 ^ k"
  shows "(\<exists>spectrum. FFT signal = Some (Inr spectrum)) \<and>
         (0 < k \<longrightarrow> length (evenPart signal) = 2 ^ (k - 1) \<and> length (oddPart signal) = 2 ^ (k - 1)
                  \<and> length (evenPart signal) < length signal
                  \<and> length (oddPart signal) < length signal)"
proof
  show "\<exists>spectrum. FFT signal = Some (Inr spectrum)"
    using FFT_pow2_cases[OF assms] by blast
next
  show "0 < k \<longrightarrow> length (evenPart signal) = 2 ^ (k - 1) \<and> length (oddPart signal) = 2 ^ (k - 1)
                  \<and> length (evenPart signal) < length signal
                  \<and> length (oddPart signal) < length signal"
  proof
    assume "0 < k"
    then obtain j where k: "k = Suc j" by (cases k) auto
    show "length (evenPart signal) = 2 ^ (k - 1) \<and> length (oddPart signal) = 2 ^ (k - 1)
                  \<and> length (evenPart signal) < length signal
                  \<and> length (oddPart signal) < length signal"
      using assms unfolding k by (simp add: length_halves)
  qed
qed

theorem FFT_terminates_witness:
  "length [Fin 1, Fin 2, Fin 3, Fin 4] = 2 ^ 2 \<and>
   (\<exists>spectrum. FFT [Fin 1, Fin 2, Fin 3, Fin 4] = Some (Inr spectrum)) \<and>
   length (evenPart [Fin 1, Fin 2, Fin 3, Fin 4]) = 2 \<and>
   length (oddPart [Fin 1, Fin 2, Fin 3, Fin 4]) = 2"
  using FFT_terminates[of "[Fin 1, Fin 2, Fin 3, Fin 4]" 2] by simp

text \<open>
  C2. At \<open>N = 1\<close> the transform returns the input itself, a buffer of one value and not
  of \<open>2 * N = 2\<close>: the single sample has no imaginary slot.
\<close>

theorem FFT_length_one:
  "FFT [x] = Some (Inr [x]) \<and> length [x] \<noteq> 2 * 1"
  by (simp add: FFT_single)

text \<open>
  C3. The empty frame, whose length 0 is not a power of two, is not refused: it passes
  the guard (\<open>0 AND -1 = 0\<close>), is not the base case, and the transform calls itself on
  two empty halves without end. No result, and no precondition error, is ever produced.
\<close>

theorem FFT_empty_diverges:
  "\<not> notPowerOfTwo 0 \<and> evenPart [] = [] \<and> oddPart [] = [] \<and> FFT [] = None"
proof -
  have "FFT [] = None"
    using FFT_returns_nonempty[of "[]"] by (cases "FFT []") auto
  then show ?thesis
    by (simp add: zero_passes evenPart_def oddPart_def)
qed

section \<open>Properties of the derived operations\<close>

lemma fdiv_NaN [simp]: "fdiv NaN x = NaN" "fdiv x NaN = NaN"
  by (cases x; simp)+

lemma fmax_NaN [simp]: "fmax NaN x = NaN" "fmax x NaN = NaN"
  by (cases x; simp)+

lemma fgt_NaN [simp]: "fgt NaN x = False"
  by simp

lemma length_foldl_update: "length (foldl (\<lambda>p i. p[i := f p i]) p ks) = length p"
  by (induction ks arbitrary: p) simp_all

lemma foldl_update_nth:
  "j < length p \<Longrightarrow>
   foldl (\<lambda>p i. p[i := f i]) p [a..<b] ! j = (if a \<le> j \<and> j < b then f j else p ! j)"
proof (induction b)
  case 0
  then show ?case by simp
next
  case (Suc b)
  show ?case
  proof (cases "a \<le> b")
    case True
    then have "[a..<Suc b] = [a..<b] @ [b]" by simp
    then show ?thesis
      using Suc length_foldl_update[of "\<lambda>p i. f i" p "[a..<b]"]
      by (auto simp: nth_update_cases)
  next
    case False
    then show ?thesis using Suc by auto
  qed
qed

lemma powerSpectrum_pow2:
  assumes "length signal = 2 ^ k"
  shows "powerSpectrum signal = Some (Inr (replicate (2 ^ k div 2 + 1) NaN))"
proof (cases k)
  case 0
  with assms obtain x where s: "signal = [x]" by (cases signal) auto
  show ?thesis unfolding s 0
    by (simp add: powerSpectrum_def bindE_def FFT_single getAt_def)
next
  case (Suc j)
  let ?n = "length signal"
  have fft: "FFT signal = Some (Inr (replicate (?n * 2) NaN))"
    using assms FFT_pow2[of signal j] Suc by simp
  have g: "getAt (replicate (?n * 2) NaN) i = NaN" for i
    by (simp add: getAt_def)
  have ev: "even ?n" using assms Suc by simp
  have "powerSpectrum signal = Some (Inr ((foldl (\<lambda>power i. power[i := NaN])
            ((replicate (?n div 2 + 1) (Fin 0))[0 := NaN]) [1..<?n div 2])[?n div 2 := NaN]))"
    by (simp add: powerSpectrum_def bindE_def fft g ev Let_def)
  moreover have "(foldl (\<lambda>power i. power[i := NaN])
            ((replicate (?n div 2 + 1) (Fin 0))[0 := NaN]) [1..<?n div 2])[?n div 2 := NaN]
       = replicate (?n div 2 + 1) NaN"
  proof (rule nth_equalityI)
    show "length ((foldl (\<lambda>power i. power[i := NaN])
            ((replicate (?n div 2 + 1) (Fin 0))[0 := NaN]) [1..<?n div 2])[?n div 2 := NaN])
        = length (replicate (?n div 2 + 1) NaN)"
      by (simp add: length_foldl_update)
  next
    fix i assume "i < length ((foldl (\<lambda>power i. power[i := NaN])
            ((replicate (?n div 2 + 1) (Fin 0))[0 := NaN]) [1..<?n div 2])[?n div 2 := NaN])"
    then have i: "i < ?n div 2 + 1" by (simp add: length_foldl_update)
    then show "(foldl (\<lambda>power i. power[i := NaN])
            ((replicate (?n div 2 + 1) (Fin 0))[0 := NaN]) [1..<?n div 2])[?n div 2 := NaN] ! i
       = replicate (?n div 2 + 1) NaN ! i"
      by (cases "i = 0") (auto simp: nth_update_cases length_foldl_update foldl_update_nth)
  qed
  ultimately show ?thesis using assms by simp
qed


lemma inplace_map:
  "m \<le> length p \<Longrightarrow>
   foldl (\<lambda>p i. p[i := g (getAt p i)]) p [0..<m] = map g (take m p) @ drop m p"
proof (induction m)
  case 0
  then show ?case by simp
next
  case (Suc m)
  then have m: "m < length p" by simp
  have "foldl (\<lambda>p i. p[i := g (getAt p i)]) p [0..<Suc m]
        = (map g (take m p) @ drop m p)[m := g (getAt (map g (take m p) @ drop m p) m)]"
    using Suc by simp
  also have "getAt (map g (take m p) @ drop m p) m = p ! m"
    using m by (simp add: getAt_def nth_append)
  also have "(map g (take m p) @ drop m p)[m := g (p ! m)]
        = map g (take m p) @ (drop m p)[0 := g (p ! m)]"
    using m by (simp add: list_update_append)
  also have "(drop m p)[0 := g (p ! m)] = g (p ! m) # drop (Suc m) p"
    using m by (simp add: Cons_nth_drop_Suc[symmetric])
  finally show ?case
    using m by (simp add: take_Suc_conv_app_nth)
qed

lemma getAt_replicate_NaN: "getAt (replicate m NaN) i = NaN"
  by (simp add: getAt_def)

lemma foldl_sum_NaN:
  assumes "0 < m" and "f (m - 1) = NaN"
  shows "foldl (\<lambda>acc i. fadd acc (f i)) a [0..<m] = NaN"
proof -
  obtain j where m: "m = Suc j" using assms(1) by (cases m) auto
  show ?thesis using assms(2) unfolding m by simp
qed

lemma centroid_sums_NaN:
  assumes "0 < m" and "p (m - 1) = NaN"
  shows "foldl (\<lambda>(weightedSum, totalPower) i.
            (fadd weightedSum (fmul (fr i) (p i)), fadd totalPower (p i))) a [0..<m]
         = (NaN, NaN)"
proof -
  obtain j where m: "m = Suc j" using assms(1) by (cases m) auto
  show ?thesis using assms(2) unfolding m by (simp add: case_prod_beta)
qed

lemma spectralCentroid_pow2:
  assumes "length signal = 2 ^ k"
  shows "spectralCentroid signal rate = Some (Inr (Fin 0))"
proof -
  let ?m = "2 ^ k div 2 + 1 :: nat"
  have g: "getAt (replicate ?m NaN) (?m - 1) = NaN"
    by (rule getAt_replicate_NaN)
  have "foldl (\<lambda>(weightedSum, totalPower) i.
            (fadd weightedSum
               (fmul (fdiv (fmul (Fin (real i)) rate) (Fin (real (2 * ?m))))
                     (getAt (replicate ?m NaN) i)),
             fadd totalPower (getAt (replicate ?m NaN) i))) (Fin 0, Fin 0) [0..<?m]
        = (NaN, NaN)"
    by (rule centroid_sums_NaN) (simp, rule g)
  then show ?thesis
    by (simp add: spectralCentroid_def bindE_def powerSpectrum_pow2[OF assms] Let_def)
qed

lemma spectralFlatness_pow2:
  assumes "length signal = 2 ^ k"
  shows "spectralFlatness signal = Some (Inr (Fin 0))"
proof -
  let ?m = "2 ^ k div 2 + 1 :: nat"
  let ?p = "replicate ?m NaN"
  have floor: "foldl (\<lambda>power i. power[i := fmax (getAt power i) (Fin (1 / 10 ^ 10))])
                 ?p [0..<?m] = ?p"
    using inplace_map[of "length ?p" ?p "\<lambda>v. fmax v (Fin (1 / 10 ^ 10))"] by simp
  have g: "getAt ?p (?m - 1) = NaN"
    by (rule getAt_replicate_NaN)
  have s1: "foldl (\<lambda>geometricMean i. fadd geometricMean (flog (getAt ?p i))) (Fin 0) [0..<?m] = NaN"
    by (rule foldl_sum_NaN) (simp, simp only: g flog.simps)
  have s2: "foldl (\<lambda>arithmeticMean i. fadd arithmeticMean (getAt ?p i)) (Fin 0) [0..<?m] = NaN"
    by (rule foldl_sum_NaN) (simp, simp only: g flog.simps)
  have len: "length ?p = ?m" by simp
  show ?thesis
    unfolding spectralFlatness_def bindE_def powerSpectrum_pow2[OF assms]
    by (simp only: bind.simps sum.case Let_def floor len s1 s2 fdiv_NaN fgt_NaN if_False)
qed

text \<open>
  C8. For an all-zero frame of any power-of-two length \<open>2^k\<close>, \<^verbatim>\<open>spectralCentroid\<close>
  (for any sample rate) and \<^verbatim>\<open>spectralFlatness\<close> both return the number 0: they return
  normally, with no error. (The totals they test are \<^verbatim>\<open>NaN\<close>, the comparison
  \<^verbatim>\<open>> 0\<close> is false, and the fallback 0 is returned.)
\<close>

theorem silent_frame_degenerate:
  "spectralCentroid (replicate (2 ^ k) (Fin 0)) rate = Some (Inr (Fin 0)) \<and>
   spectralFlatness (replicate (2 ^ k) (Fin 0)) = Some (Inr (Fin 0))"
  using spectralCentroid_pow2[of "replicate (2 ^ k) (Fin 0)" k rate]
        spectralFlatness_pow2[of "replicate (2 ^ k) (Fin 0)" k]
  by simp

text \<open>
  C4. On the two-sample input \<open>[1, 2]\<close> \<^verbatim>\<open>powerSpectrum\<close> returns \<open>N/2 + 1 = 2\<close> values,
  both \<^verbatim>\<open>NaN\<close>; \<^verbatim>\<open>NaN\<close> is not non-negative (\<^verbatim>\<open>NaN >= 0\<close> is false).
\<close>

theorem powerSpectrum_NaN:
  "powerSpectrum [Fin 1, Fin 2] = Some (Inr [NaN, NaN]) \<and> \<not> fge NaN (Fin 0)"
  using powerSpectrum_pow2[of "[Fin 1, Fin 2]" 1] by (simp add: numeral_2_eq_2)

text \<open>
  C1. On the input \<open>[1, 2]\<close> (\<open>N = 2\<close>) the transform returns four \<^verbatim>\<open>NaN\<close>s, the
  transform of that spectrum returns eight, and transform, transform, scale by \<open>1/N\<close>
  (the low-pass filter with nothing cut) returns \<open>[NaN, NaN]\<close>, not an approximation of
  \<open>[1, 2]\<close>.
\<close>

theorem round_trip_NaN:
  "FFT [Fin 1, Fin 2] = Some (Inr [NaN, NaN, NaN, NaN]) \<and>
   FFT [NaN, NaN, NaN, NaN] = Some (Inr (replicate 8 NaN)) \<and>
   lowPassFilter [Fin 1, Fin 2] (Fin (1 / 2)) = Some (Inr [NaN, NaN])"
proof -
  have f1: "FFT [Fin 1, Fin 2] = Some (Inr [NaN, NaN, NaN, NaN])"
    using FFT_pow2[of "[Fin 1, Fin 2]" 0] by (simp add: numeral_eq_Suc)
  have f2: "FFT [NaN, NaN, NaN, NaN] = Some (Inr (replicate 8 NaN))"
    using FFT_pow2[of "[NaN, NaN, NaN, NaN]" 1] by simp
  have u: "[0..<2] = [0, 1]"
    by (simp add: upt_rec)
  have "lowPassFilter [Fin 1, Fin 2] (Fin (1 / 2)) = Some (Inr [NaN, NaN])"
    by (simp add: lowPassFilter_def bindE_def f1 f2 u getAt_def Let_def)
  with f1 f2 show ?thesis by simp
qed

subsection \<open>Pre-emphasis\<close>

lemma pow2_pos: "0 < pow2 k"
  by (simp add: pow2_def)

lemma pow2_powr: "pow2 k = 2 powr (of_int k)"
  by (simp add: pow2_def powr_int)

lemma floor_log2_binade:
  assumes "pow2 e \<le> x" and "x < pow2 (e + 1)"
  shows "\<lfloor>log 2 x\<rfloor> = e"
proof -
  have "0 < x" using assms(1) pow2_pos[of e] by linarith
  then show ?thesis
    using assms by (simp add: floor_log_eq_powr_iff pow2_powr)
qed

lemma roundTo_binade:
  assumes "r \<noteq> 0" and "pow2 e \<le> \<bar>r\<bar>" and "\<bar>r\<bar> < pow2 (e + 1)"
  shows "roundTo p emin emax r =
     (let q = pow2 (max e emin - (int p - 1));
          n = roundHalfEven (\<bar>r\<bar> / q);
          m = of_int n * q
      in if pow2 (emax + 1) \<le> m then (if 0 < r then PosInf else NegInf)
         else if n = 0 then (if 0 < r then Finite 0 else NegZero)
         else Finite (sgn r * m))"
  using assms(1) by (simp add: roundTo_def floor_log2_binade[OF assms(2,3)])

lemma f32_16777216: "roundFloat32 16777216 = Finite 16777216"
  unfolding roundFloat32_def
  by (subst roundTo_binade[where e = 24]) (simp_all add: pow2_def roundHalfEven_def Let_def)

lemma f32_16777217: "roundFloat32 16777217 = Finite 16777216"
  unfolding roundFloat32_def
  by (subst roundTo_binade[where e = 24]) (simp_all add: pow2_def roundHalfEven_def Let_def)

lemma f32_1: "roundFloat32 1 = Finite 1"
  unfolding roundFloat32_def
  by (subst roundTo_binade[where e = 0]) (simp_all add: pow2_def roundHalfEven_def Let_def)

lemma d_m1: "roundDouble (- 1) = Finite (- 1)"
  unfolding roundDouble_def
  by (subst roundTo_binade[where e = 0]) (simp_all add: pow2_def roundHalfEven_def Let_def)

lemma d_m16777216: "roundDouble (- 16777216) = Finite (- 16777216)"
  unfolding roundDouble_def
  by (subst roundTo_binade[where e = 24]) (simp_all add: pow2_def roundHalfEven_def Let_def)

lemma d_16777217: "roundDouble 16777217 = Finite 16777217"
  unfolding roundDouble_def
  by (subst roundTo_binade[where e = 24]) (simp_all add: pow2_def roundHalfEven_def Let_def)


lemma d_2: "roundDouble 2 = Finite 2"
  unfolding roundDouble_def
  by (subst roundTo_binade[where e = 1]) (simp_all add: pow2_def roundHalfEven_def Let_def)

lemma f32_2: "roundFloat32 2 = Finite 2"
  unfolding roundFloat32_def
  by (subst roundTo_binade[where e = 1]) (simp_all add: pow2_def roundHalfEven_def Let_def)

lemma length_preEmphasis: "length (preEmphasis x alpha) = length x"
  by (simp add: preEmphasis_def Let_def length_foldl_update)

lemma nth_preEmphasis:
  assumes "i < length x"
  shows "preEmphasis x alpha ! i =
           (if i = 0 then toFloat32 (toFloat32 (x ! 0))
            else toFloat32 (subDouble (toFloat32 (x ! i))
                              (mulDouble (toDouble alpha) (toFloat32 (x ! (i - 1))))))"
  using assms
  by (cases "i = 0")
     (auto simp: preEmphasis_def Let_def foldl_update_nth nth_update_cases readFloat32_def)

text \<open>
  C9 (as amended). For every array \<open>x\<close> of single-precision values and every double
  \<open>alpha\<close>, \<^verbatim>\<open>preEmphasis\<close> returns a signal of the same length, whose first sample is
  the input's first sample and whose sample \<open>i \<ge> 1\<close> is \<open>x[i] - alpha * x[i-1]\<close> computed
  in double precision and rounded to single precision; on the constant signal of \<open>n\<close>
  samples \<open>c\<close> it returns \<open>c\<close> followed by \<open>n - 1\<close> copies of that rounded value of
  \<open>c - alpha * c\<close>.
\<close>

theorem preEmphasis_rounded:
  assumes "\<forall>v \<in> set x. toFloat32 v = v" and "toFloat32 c = c" and "toDouble alpha = alpha"
  shows "length (preEmphasis x alpha) = length x \<and>
   (\<forall>i < length x. preEmphasis x alpha ! i =
      (if i = 0 then x ! 0 else toFloat32 (subDouble (x ! i) (mulDouble alpha (x ! (i - 1)))))) \<and>
   preEmphasis (replicate n c) alpha =
     (if n = 0 then [] else c # replicate (n - 1) (toFloat32 (subDouble c (mulDouble alpha c))))"
proof (intro conjI allI impI)
  show "length (preEmphasis x alpha) = length x" by (rule length_preEmphasis)
next
  fix i assume i: "i < length x"
  have f: "toFloat32 (x ! j) = x ! j" if "j < length x" for j
    using assms(1) that by simp
  from i have "0 < length x" "i - 1 < length x" by (cases x; simp)+
  with i have "toFloat32 (x ! i) = x ! i" "toFloat32 (x ! (i - 1)) = x ! (i - 1)"
      "toFloat32 (x ! 0) = x ! 0"
    by (simp_all only: f)
  then show "preEmphasis x alpha ! i =
      (if i = 0 then x ! 0 else toFloat32 (subDouble (x ! i) (mulDouble alpha (x ! (i - 1)))))"
    by (simp add: nth_preEmphasis[OF i] assms(3))
next
  show "preEmphasis (replicate n c) alpha =
     (if n = 0 then [] else c # replicate (n - 1) (toFloat32 (subDouble c (mulDouble alpha c))))"
  proof (cases n)
    case 0
    then show ?thesis by (simp add: preEmphasis_def)
  next
    case (Suc m)
    let ?r = "toFloat32 (subDouble c (mulDouble alpha c))"
    have "preEmphasis (replicate (Suc m) c) alpha = c # replicate m ?r"
    proof (rule nth_equalityI)
      show "length (preEmphasis (replicate (Suc m) c) alpha) = length (c # replicate m ?r)"
        by (simp add: length_preEmphasis)
    next
      fix i assume "i < length (preEmphasis (replicate (Suc m) c) alpha)"
      then have i: "i < length (replicate (Suc m) c)"
        by (simp only: length_preEmphasis)
      have r: "replicate (Suc m) c ! j = c" if "j \<le> m" for j
        using that by (intro nth_replicate) simp
      show "preEmphasis (replicate (Suc m) c) alpha ! i = (c # replicate m ?r) ! i"
      proof (cases i)
        case 0
        then show ?thesis
          unfolding nth_preEmphasis[OF i] by (simp add: assms(2))
      next
        case (Suc j)
        with i have j: "j < m" by simp
        then have "replicate (Suc m) c ! i = c" "replicate (Suc m) c ! (i - 1) = c"
          using Suc r[of i] r[of j] by simp_all
        then show ?thesis
          unfolding nth_preEmphasis[OF i] using Suc j by (simp add: assms(2,3))
      qed
    qed
    with Suc show ?thesis by simp
  qed
qed

lemma preEmphasis_example_sub:
  "toFloat32 (subDouble (Finite 1) (mulDouble (Finite (- 1)) (Finite 16777216))) = Finite 16777216"
  by (simp add: mulDouble_def subDouble_def addDouble_def d_m16777216 d_16777217 f32_16777217)

lemma preEmphasis_example_const:
  "toFloat32 (subDouble (Finite 1) (mulDouble (Finite (- 1)) (Finite 1))) = Finite 2"
  by (simp add: mulDouble_def subDouble_def addDouble_def d_m1 d_2 f32_2)

theorem preEmphasis_rounded_witness:
  "toFloat32 (Finite 16777216) = Finite 16777216 \<and> toFloat32 (Finite 1) = Finite 1 \<and>
   toDouble (Finite (- 1)) = Finite (- 1) \<and>
   length (preEmphasis [Finite 16777216, Finite 1] (Finite (- 1))) = 2 \<and>
   preEmphasis [Finite 16777216, Finite 1] (Finite (- 1)) ! 0 = Finite 16777216 \<and>
   preEmphasis [Finite 16777216, Finite 1] (Finite (- 1)) ! 1 = Finite 16777216 \<and>
   preEmphasis (replicate 3 (Finite 1)) (Finite (- 1)) = [Finite 1, Finite 2, Finite 2]"
proof -
  have h1: "\<forall>v \<in> set [Finite 16777216, Finite 1]. toFloat32 v = v"
    by (simp add: f32_16777216 f32_1)
  have h2: "toFloat32 (Finite 1) = Finite 1" by (simp add: f32_1)
  have h3: "toDouble (Finite (- 1)) = Finite (- 1)" by (simp add: d_m1)
  note t = preEmphasis_rounded[OF h1 h2 h3, of 3]
  from t have len: "length (preEmphasis [Finite 16777216, Finite 1] (Finite (- 1))) = 2"
    by simp
  from t have nth: "\<forall>i < 2. preEmphasis [Finite 16777216, Finite 1] (Finite (- 1)) ! i =
      (if i = 0 then [Finite 16777216, Finite 1] ! 0
       else toFloat32 (subDouble ([Finite 16777216, Finite 1] ! i)
              (mulDouble (Finite (- 1)) ([Finite 16777216, Finite 1] ! (i - 1)))))"
    by simp
  from t have const: "preEmphasis (replicate 3 (Finite 1)) (Finite (- 1)) = [Finite 1, Finite 2, Finite 2]"
    by (simp add: numeral_3_eq_3 preEmphasis_example_const)
  from nth have n0: "preEmphasis [Finite 16777216, Finite 1] (Finite (- 1)) ! 0 = Finite 16777216"
    by simp
  from nth have n1: "preEmphasis [Finite 16777216, Finite 1] (Finite (- 1)) ! 1 = Finite 16777216"
    by (simp add: preEmphasis_example_sub)
  from h1 h2 h3 len n0 n1 const show ?thesis by simp
qed

text \<open>
  C9 as stated fails: for \<open>x = [16777216, 1]\<close> and \<open>alpha = -1\<close> the exact value of
  \<open>x[1] - alpha * x[0]\<close> is \<open>16777217 = 2^24 + 1\<close>, which single precision cannot hold;
  the stored sample is \<open>16777216\<close>.
\<close>

theorem preEmphasis_not_exact:
  "preEmphasis [Finite 16777216, Finite 1] (Finite (- 1)) = [Finite 16777216, Finite 16777216] \<and>
   (1 - (- 1) * 16777216 :: real) = 16777217 \<and> Finite 16777216 \<noteq> Finite (1 - (- 1) * 16777216)"
proof -
  have "preEmphasis [Finite 16777216, Finite 1] (Finite (- 1)) = [Finite 16777216, Finite 16777216]"
  proof (rule nth_equalityI)
    show "length (preEmphasis [Finite 16777216, Finite 1] (Finite (- 1)))
            = length [Finite 16777216, Finite 16777216 :: ieee]"
      by (simp add: length_preEmphasis)
  next
    fix i assume "i < length (preEmphasis [Finite 16777216, Finite 1] (Finite (- 1)))"
    then have i: "i < length [Finite 16777216, Finite 1 :: ieee]"
      by (simp only: length_preEmphasis)
    then consider "i = 0" | "i = 1" by fastforce
    then show "preEmphasis [Finite 16777216, Finite 1] (Finite (- 1)) ! i
                 = [Finite 16777216, Finite 16777216] ! i"
    proof cases
      case 1
      then show ?thesis
        unfolding nth_preEmphasis[OF i] by (simp add: f32_16777216)
    next
      case 2
      then show ?thesis
        unfolding nth_preEmphasis[OF i]
        by (simp add: f32_16777216 f32_1 d_m1 preEmphasis_example_sub)
    qed
  qed
  then show ?thesis by simp
qed

section \<open>Properties of the framer\<close>

lemma nextFrame_eq:
  "start < length signal \<Longrightarrow>
   nextFrame p signal start =
     take (frameLength p) (drop start signal)
       @ replicate (frameLength p - (length signal - start)) (Fin 0)"
  by (auto simp: nextFrame_def tf_pad_def tf_slice_def Let_def min_def)

lemma length_nextFrame:
  "start < length signal \<Longrightarrow> length (nextFrame p signal start) = frameLength p"
  by (auto simp: nextFrame_eq)

lemma frameCount_step:
  assumes "0 < s" "0 < d"
  shows "(d + s - 1) div s = Suc (((d - s) + s - 1) div s)"
proof -
  have "d + s - 1 = (d - 1) + s" using assms by simp
  then have lhs: "(d + s - 1) div s = Suc ((d - 1) div s)"
    using assms by (simp only: div_add_self2)
  show ?thesis
  proof (cases "s \<le> d")
    case True
    then have "(d - s) + s - 1 = d - 1" by simp
    then show ?thesis using lhs by (simp only:)
  next
    case False
    then have "(d - s) + s - 1 = s - 1" by simp
    moreover have "(s - 1) div s = 0" using assms by (simp only: div_less diff_less zero_less_one)
    moreover have "(d - 1) div s = 0" using False assms by (intro div_less) simp
    ultimately show ?thesis using lhs by (simp only:)
  qed
qed

lemma frameLoop_closed:
  assumes "0 < frameStep p"
  shows "frameLoop p signal frames start =
     Some (frames @ map (\<lambda>i. nextFrame p signal (start + i * frameStep p))
             [0..<(length signal - start + frameStep p - 1) div frameStep p])"
proof (induction "length signal - start" arbitrary: start frames rule: less_induct)
  case less
  let ?s = "frameStep p"
  show ?case
  proof (cases "start < length signal")
    case False
    then have "(length signal - start + ?s - 1) div ?s = 0"
      using assms by simp
    with False show ?thesis
      by (subst frameLoop.simps) simp
  next
    case True
    let ?d = "length signal - start"
    have dec: "length signal - (start + ?s) < ?d"
      using True assms by simp
    have cnt: "(?d + ?s - 1) div ?s = Suc ((length signal - (start + ?s) + ?s - 1) div ?s)"
      using frameCount_step[of ?s ?d] True assms by simp
    have "frameLoop p signal frames start
          = frameLoop p signal (frames @ [nextFrame p signal start]) (start + ?s)"
      using True by (subst frameLoop.simps) simp
    also have "\<dots> = Some ((frames @ [nextFrame p signal start])
         @ map (\<lambda>i. nextFrame p signal (start + ?s + i * ?s))
             [0..<(length signal - (start + ?s) + ?s - 1) div ?s])"
      by (rule less[OF dec])
    also have "(frames @ [nextFrame p signal start])
         @ map (\<lambda>i. nextFrame p signal (start + ?s + i * ?s))
             [0..<(length signal - (start + ?s) + ?s - 1) div ?s]
        = frames @ map (\<lambda>i. nextFrame p signal (start + i * ?s)) [0..<(?d + ?s - 1) div ?s]"
      unfolding cnt by (simp add: upt_conv_Cons map_Suc_upt[symmetric] add.assoc del: upt_Suc)
    finally show ?thesis .
  qed
qed

lemma count_ceiling:
  assumes "0 < s"
  shows "(l + s - 1) div s = nat \<lceil>real l / real s\<rceil>"
proof -
  define q where "q = (l + s - 1) div s"
  have a: "q * s \<le> l + s - 1"
    unfolding q_def by (rule div_times_less_eq_dividend)
  have b: "l + s - 1 < s + q * s"
    unfolding q_def using assms by (rule dividend_less_div_times)
  have ra: "real q * real s \<le> real l + real s - 1"
  proof -
    have "real (q * s) \<le> real (l + s - 1)" using a by (simp only: of_nat_le_iff)
    then show ?thesis using assms by (simp add: of_nat_diff)
  qed
  have rb: "real l + real s - 1 < real s + real q * real s"
  proof -
    have "real (l + s - 1) < real (s + q * s)" using b by (simp only: of_nat_less_iff)
    then show ?thesis using assms by (simp add: of_nat_diff)
  qed
  have s0: "0 < real s" using assms by simp
  have nb: "l \<le> q * s" using b assms by simp
  have "\<lceil>real l / real s\<rceil> = int q"
  proof (rule ceiling_unique)
    have "(real q - 1) * real s < real l"
      using ra s0 by (simp add: algebra_simps)
    then show "of_int (int q) - 1 < real l / real s"
      using s0 by (simp add: pos_less_divide_eq)
  next
    have "real l \<le> real (q * s)"
      using nb by (simp only: of_nat_le_iff)
    then show "real l / real s \<le> of_int (int q)"
      using s0 by (simp add: pos_divide_le_eq)
  qed
  then show ?thesis unfolding q_def by simp
qed

lemma frame_closed:
  assumes "0 < frameStep p"
  shows "frame p signal =
     Some (tf_stack (map (\<lambda>i. nextFrame p signal (i * frameStep p))
             [0..<(length signal + frameStep p - 1) div frameStep p]))"
  using frameLoop_closed[OF assms, of signal "[]" 0] by (simp add: frame_def)

lemma start_in_range:
  assumes "0 < s" "i < (l + s - 1) div s"
  shows "i * s < (l::nat)"
proof -
  have "Suc i \<le> (l + s - 1) div s" using assms(2) by simp
  then have "Suc i * s \<le> l + s - 1"
    using assms(1) by (simp only: less_eq_div_iff_mult_less_eq)
  then show ?thesis using assms(1) by simp
qed

text \<open>
  C5 (as amended). For every non-empty waveform of length \<open>L\<close> and every
  \<open>frameStep > 0\<close>, the framer returns exactly \<open>\<lceil>L / frameStep\<rceil>\<close> frames; frame \<open>i\<close>
  starts at offset \<open>i * frameStep\<close>, which is below \<open>L\<close>, consists of the (at most
  \<open>frameLength\<close>) samples from there on followed by zeros, and has exactly
  \<open>frameLength\<close> samples.
\<close>

theorem frame_count_and_padding:
  assumes "0 < frameStep p" and "signal \<noteq> []"
  shows "\<exists>frames. frame p signal = Some (Inr frames) \<and>
           length frames = nat \<lceil>real (length signal) / real (frameStep p)\<rceil> \<and>
           (\<forall>i < length frames.
               i * frameStep p < length signal \<and>
               frames ! i = take (frameLength p) (drop (i * frameStep p) signal)
                              @ replicate (frameLength p - (length signal - i * frameStep p)) (Fin 0) \<and>
               length (frames ! i) = frameLength p)"
proof -
  let ?s = "frameStep p"
  let ?c = "(length signal + ?s - 1) div ?s"
  let ?frames = "map (\<lambda>i. nextFrame p signal (i * ?s)) [0..<?c]"
  have pos: "0 < ?c"
  proof -
    have "?s \<le> length signal + ?s - 1" using assms(2) by (cases signal) simp_all
    then show ?thesis using assms(1) by (simp add: div_greater_zero_iff)
  qed
  then have ne: "?frames \<noteq> []" by simp
  have 1: "frame p signal = Some (Inr ?frames)"
    unfolding frame_closed[OF assms(1)] using ne by (simp only: tf_stack_def if_False)
  have 2: "length ?frames = nat \<lceil>real (length signal) / real ?s\<rceil>"
    using count_ceiling[OF assms(1), of "length signal"] by simp
  have 3: "i * ?s < length signal \<and>
           ?frames ! i = take (frameLength p) (drop (i * ?s) signal)
                           @ replicate (frameLength p - (length signal - i * ?s)) (Fin 0) \<and>
           length (?frames ! i) = frameLength p" if "i < length ?frames" for i
  proof -
    from that have i: "i < ?c" by simp
    then have r: "i * ?s < length signal" using assms(1) by (intro start_in_range)
    have n: "?frames ! i = nextFrame p signal (i * ?s)" using i by simp
    show ?thesis
      unfolding n using r by (simp add: nextFrame_eq[OF r] length_nextFrame[OF r])
  qed
  from 1 2 3 show ?thesis by blast
qed

theorem frame_count_and_padding_witness:
  "0 < frameStep newAudioProcessor \<and> [Fin 1, Fin 2, Fin 3] \<noteq> [] \<and>
   frame newAudioProcessor [Fin 1, Fin 2, Fin 3] = Some (Inr [[Fin 1, Fin 2, Fin 3] @ replicate 397 (Fin 0)])"
proof -
  have h: "0 < frameStep newAudioProcessor" "[Fin 1, Fin 2, Fin 3] \<noteq> []"
    by (simp_all add: newAudioProcessor_def)
  from frame_count_and_padding[OF h]
  obtain frames where f: "frame newAudioProcessor [Fin 1, Fin 2, Fin 3] = Some (Inr frames)"
    and l: "length frames = nat \<lceil>real (length [Fin 1, Fin 2, Fin 3]) / real (frameStep newAudioProcessor)\<rceil>"
    and n: "\<forall>i < length frames. i * frameStep newAudioProcessor < length [Fin 1, Fin 2, Fin 3] \<and>
               frames ! i = take (frameLength newAudioProcessor) (drop (i * frameStep newAudioProcessor) [Fin 1, Fin 2, Fin 3])
                  @ replicate (frameLength newAudioProcessor - (length [Fin 1, Fin 2, Fin 3] - i * frameStep newAudioProcessor)) (Fin 0) \<and>
               length (frames ! i) = frameLength newAudioProcessor"
    by blast
  have l1: "length frames = 1"
    using l by (simp add: newAudioProcessor_def)
  then obtain x where x: "frames = [x]"
    by (cases frames) auto
  from n l1 have "frames ! 0 = [Fin 1, Fin 2, Fin 3] @ replicate 397 (Fin 0)"
    by (simp add: newAudioProcessor_def)
  with x f h show ?thesis by simp
qed

text \<open>
  C5 as stated fails for the empty waveform (\<open>L = 0\<close>): the loop produces no frame and
  stacking the empty list is refused, so no sequence of \<open>\<lceil>0 / frameStep\<rceil> = 0\<close> frames is
  returned.
\<close>

theorem frame_empty_rejected:
  "frame newAudioProcessor [] = Some (Inl EmptyTensorList)"
  by (simp add: frame_def frameLoop.simps tf_stack_def)

section \<open>Properties of the cepstral path\<close>

lemma cols_Cons: "cols (r # rs) = length r"
  by (simp add: cols_def)

lemma cols_elementwise: "cols (elementwise f x) = cols x"
  by (cases x) (simp_all add: cols_def elementwise_def)

lemma cols_dctMatrix: "cols (dctMatrix n) = n"
  by (cases n) (simp_all add: cols_def dctMatrix_def upt_conv_Cons del: upt_Suc)

lemma cols_matMul: "a \<noteq> [] \<Longrightarrow> cols (tf_matMul a b) = cols b"
  by (cases a) (simp_all add: tf_matMul_def cols_Cons)

lemma cols_dct: "x \<noteq> [] \<Longrightarrow> cols (dct x) = cols x"
  by (simp add: dct_def Let_def cols_matMul cols_dctMatrix)

lemma cols_lfccPowerSpectrum:
  assumes "frames \<noteq> []" and "\<forall>f \<in> set frames. length f = frameLength p"
  shows "cols (lfccPowerSpectrum p frames) = frameLength p div 2 + 1"
proof -
  obtain f fs where fr: "frames = f # fs" using assms(1) by (cases frames) auto
  then have "length f = frameLength p" using assms(2) by simp
  then show ?thesis
    unfolding fr
    by (simp add: cols_def lfccPowerSpectrum_def tf_rfft_def tf_mul_def elementwise_def
          tf_hammingWindow_def Let_def)
qed

text \<open>Every row of the power spectrum has \<open>frameLength div 2 + 1\<close> bins, whatever
  \<open>fftSize\<close> is.\<close>

lemma lfcc_bins:
  assumes "\<forall>f \<in> set frames. length f = frameLength p"
  shows "\<forall>r \<in> set (lfccPowerSpectrum p frames). length r = frameLength p div 2 + 1"
  using assms
  by (auto simp: lfccPowerSpectrum_def tf_rfft_def tf_mul_def elementwise_def
        tf_hammingWindow_def Let_def)

text \<open>
  C7. With the class's constants (frame length 400, \<open>fftSize\<close> 512) the power spectrum
  computed for a 400-sample frame has 201 bins, that is \<open>400 div 2 + 1\<close>, and not
  \<open>512 div 2 + 1 = 257\<close>: the frame is transformed at its own length, unpadded.
\<close>

theorem lfcc_bins_201:
  "map length (lfccPowerSpectrum newAudioProcessor [replicate 400 (Fin 0)]) = [201] \<and>
   frameLength newAudioProcessor = 400 \<and> fftSize newAudioProcessor = 512 \<and>
   (201::nat) \<noteq> 512 div 2 + 1"
  by (simp add: lfccPowerSpectrum_def tf_rfft_def tf_mul_def elementwise_def
        tf_hammingWindow_def Let_def newAudioProcessor_def)

lemma computeLFCC_cols:
  assumes "batch \<noteq> []" and "\<forall>f \<in> set batch. length f = frameLength p"
  shows "computeLFCC p batch =
     (if numCoeffs p \<le> frameLength p div 2 + 1
      then Inr (map (take (numCoeffs p))
             (tf_matMul (elementwise flog (elementwise (\<lambda>v. fadd v (Fin (1 / 10 ^ 6)))
                           (lfccPowerSpectrum p batch)))
                (dctMatrix (frameLength p div 2 + 1))))
      else Inl ShapeMismatch)"
proof -
  let ?L = "elementwise flog (elementwise (\<lambda>v. fadd v (Fin (1 / 10 ^ 6))) (lfccPowerSpectrum p batch))"
  have c: "cols ?L = frameLength p div 2 + 1"
    by (simp only: cols_elementwise cols_lfccPowerSpectrum[OF assms])
  have ne: "?L \<noteq> []"
    using assms(1)
    by (simp add: elementwise_def lfccPowerSpectrum_def tf_rfft_def tf_mul_def Let_def)
  have d: "dct ?L = tf_matMul ?L (dctMatrix (frameLength p div 2 + 1))"
    by (simp only: dct_def Let_def c)
  have cd: "cols (dct ?L) = frameLength p div 2 + 1"
    by (simp only: cols_dct[OF ne] c)
  show ?thesis
    unfolding computeLFCC_def Let_def cd unfolding d ..
qed

lemma rowwise_aux:
  "map (take c) (tf_matMul (elementwise g1 (elementwise g2 (lfccPowerSpectrum p batch))) M)
   = map (\<lambda>f. hd (map (take c)
                 (tf_matMul (elementwise g1 (elementwise g2 (lfccPowerSpectrum p [f]))) M))) batch"
  by (simp add: tf_matMul_def elementwise_def lfccPowerSpectrum_def tf_rfft_def tf_mul_def
        Let_def o_def)

lemma computeLFCC_rowwise:
  assumes "batch \<noteq> []" and "\<forall>f \<in> set batch. length f = frameLength p"
  shows "computeLFCC p batch =
     (if numCoeffs p \<le> frameLength p div 2 + 1
      then Inr (map (\<lambda>f. hd (projr (computeLFCC p [f]))) batch)
      else Inl ShapeMismatch)"
proof (cases "numCoeffs p \<le> frameLength p div 2 + 1")
  case False
  then show ?thesis by (simp add: computeLFCC_cols[OF assms])
next
  case True
  have single: "hd (projr (computeLFCC p [f])) =
      hd (map (take (numCoeffs p))
             (tf_matMul (elementwise flog (elementwise (\<lambda>v. fadd v (Fin (1 / 10 ^ 6)))
                           (lfccPowerSpectrum p [f])))
                (dctMatrix (frameLength p div 2 + 1))))" if "f \<in> set batch" for f
  proof -
    have "\<forall>g \<in> set [f]. length g = frameLength p" using that assms(2) by simp
    then show ?thesis
      using True by (subst computeLFCC_cols) simp_all
  qed
  have rows: "map (\<lambda>f. hd (projr (computeLFCC p [f]))) batch =
        map (\<lambda>f. hd (map (take (numCoeffs p))
             (tf_matMul (elementwise flog (elementwise (\<lambda>v. fadd v (Fin (1 / 10 ^ 6)))
                           (lfccPowerSpectrum p [f])))
                (dctMatrix (frameLength p div 2 + 1))))) batch"
    by (rule map_cong[OF refl]) (rule single)
  have "computeLFCC p batch = Inr (map (take (numCoeffs p))
             (tf_matMul (elementwise flog (elementwise (\<lambda>v. fadd v (Fin (1 / 10 ^ 6)))
                           (lfccPowerSpectrum p batch)))
                (dctMatrix (frameLength p div 2 + 1))))"
    using True by (simp only: computeLFCC_cols[OF assms] if_True)
  also have "\<dots> = Inr (map (\<lambda>f. hd (projr (computeLFCC p [f]))) batch)"
    unfolding rows by (rule arg_cong[where f = Inr]) (rule rowwise_aux)
  finally show ?thesis using True by (simp only: if_True)
qed

lemma batch_split:
  assumes "i < length frames" and "0 < b"
  shows "tf_slice frames i (min b (length frames - i)) @ drop (i + b) frames = drop i frames"
proof (cases "b \<le> length frames - i")
  case True
  then have "min b (length frames - i) = b" by simp
  moreover have "take b (drop i frames) @ drop (i + b) frames = drop i frames"
    using append_take_drop_id[of b "drop i frames"] by (simp add: add.commute)
  ultimately show ?thesis by (simp add: tf_slice_def)
next
  case False
  then show ?thesis by (simp add: tf_slice_def min_def)
qed

lemma batch_nonempty:
  assumes "i < length frames" and "0 < b"
  shows "tf_slice frames i (min b (length frames - i)) \<noteq> []"
  using assms by (simp add: tf_slice_def)

lemma batch_subset: "set (tf_slice frames i n) \<subseteq> set frames"
  unfolding tf_slice_def by (meson set_take_subset set_drop_subset subset_trans)

lemma batchLoop_ok:
  assumes b: "0 < batchSize p"
    and nc: "numCoeffs p \<le> frameLength p div 2 + 1"
    and u: "\<forall>f \<in> set frames. length f = frameLength p"
  shows "\<exists>out. batchLoop p frames acc i = Some (Inr out) \<and>
           concat out = concat acc @ map (\<lambda>f. hd (projr (computeLFCC p [f]))) (drop i frames) \<and>
           (i < length frames \<longrightarrow> out \<noteq> [])"
proof (induction "length frames - i" arbitrary: i acc rule: less_induct)
  case less
  let ?R = "\<lambda>f. hd (projr (computeLFCC p [f]))"
  show ?case
  proof (cases "i < length frames")
    case False
    then show ?thesis by (subst batchLoop.simps) simp
  next
    case True
    let ?batch = "tf_slice frames i (min (batchSize p) (length frames - i))"
    have ne: "?batch \<noteq> []" using True b by (rule batch_nonempty)
    have ub: "\<forall>f \<in> set ?batch. length f = frameLength p"
      using u batch_subset[of frames i] by blast
    have c: "computeLFCC p ?batch = Inr (map ?R ?batch)"
      using nc by (simp only: computeLFCC_rowwise[OF ne ub] if_True)
    have dec: "length frames - (i + batchSize p) < length frames - i"
      using True b by simp
    from less[OF dec, of "acc @ [map ?R ?batch]"]
    obtain out where o: "batchLoop p frames (acc @ [map ?R ?batch]) (i + batchSize p) = Some (Inr out)"
      and co: "concat out = concat (acc @ [map ?R ?batch]) @ map ?R (drop (i + batchSize p) frames)"
      by blast
    have "batchLoop p frames acc i = Some (Inr out)"
      using True by (subst batchLoop.simps) (simp add: Let_def c o)
    moreover have "concat out = concat acc @ map ?R (drop i frames)"
    proof -
      have "map ?R ?batch @ map ?R (drop (i + batchSize p) frames) = map ?R (drop i frames)"
        using batch_split[OF True b] by (metis map_append)
      then show ?thesis unfolding co by simp
    qed
    moreover have "out \<noteq> []"
    proof
      assume "out = []"
      then have "concat out = []" by simp
      then show False unfolding co using ne by simp
    qed
    ultimately show ?thesis by blast
  qed
qed

lemma batchLoop_err:
  assumes b: "0 < batchSize p"
    and nc: "\<not> numCoeffs p \<le> frameLength p div 2 + 1"
    and u: "\<forall>f \<in> set frames. length f = frameLength p"
    and i: "i < length frames"
  shows "batchLoop p frames acc i = Some (Inl ShapeMismatch)"
proof -
  let ?batch = "tf_slice frames i (min (batchSize p) (length frames - i))"
  have ne: "?batch \<noteq> []" using i b by (rule batch_nonempty)
  have ub: "\<forall>f \<in> set ?batch. length f = frameLength p"
    using u batch_subset[of frames i] by blast
  have c: "computeLFCC p ?batch = Inl ShapeMismatch"
    using nc by (simp only: computeLFCC_rowwise[OF ne ub] if_False)
  show ?thesis
    using i by (subst batchLoop.simps) (simp add: Let_def c)
qed

lemma extractFeatures_closed:
  assumes s: "0 < frameStep p" and b: "0 < batchSize p"
  shows "extractFeatures p audioData =
     (if audioData = [] then Some (Inl EmptyTensorList)
      else if numCoeffs p \<le> frameLength p div 2 + 1
      then Some (Inr (map (\<lambda>f. hd (projr (computeLFCC p [f])))
                   (map (\<lambda>i. nextFrame p audioData (i * frameStep p))
                      [0..<(length audioData + frameStep p - 1) div frameStep p])))
      else Some (Inl ShapeMismatch))"
proof (cases "audioData = []")
  case True
  then show ?thesis
    by (simp add: extractFeatures_def bindE_def frame_closed[OF s] tf_stack_def s)
next
  case False
  let ?c = "(length audioData + frameStep p - 1) div frameStep p"
  let ?frames = "map (\<lambda>i. nextFrame p audioData (i * frameStep p)) [0..<?c]"
  let ?R = "\<lambda>f. hd (projr (computeLFCC p [f]))"
  have pos: "0 < ?c"
  proof -
    have "frameStep p \<le> length audioData + frameStep p - 1"
      using False by (cases audioData) simp_all
    then show ?thesis using s by (simp add: div_greater_zero_iff)
  qed
  then have ne: "?frames \<noteq> []" by simp
  have fr: "frame p audioData = Some (Inr ?frames)"
    unfolding frame_closed[OF s] using ne by (simp only: tf_stack_def if_False)
  have u: "\<forall>f \<in> set ?frames. length f = frameLength p"
  proof
    fix f assume "f \<in> set ?frames"
    then obtain i where i: "i < ?c" and f: "f = nextFrame p audioData (i * frameStep p)"
      by auto
    have "i * frameStep p < length audioData" using s i by (rule start_in_range)
    then show "length f = frameLength p" unfolding f by (rule length_nextFrame)
  qed
  have l: "0 < length ?frames" using pos by simp
  show ?thesis
  proof (cases "numCoeffs p \<le> frameLength p div 2 + 1")
    case True
    from batchLoop_ok[OF b True u, of "[]" 0] l
    obtain out where o: "batchLoop p ?frames [] 0 = Some (Inr out)"
      and co: "concat out = map ?R ?frames" and one: "out \<noteq> []"
      by auto
    show ?thesis
      using False True one
      by (simp only: extractFeatures_def bindE_def fr o bind.simps sum.case tf_concat_def
            if_False if_True co)
  next
    case nc: False
    have "batchLoop p ?frames [] 0 = Some (Inl ShapeMismatch)"
      using b nc u l by (rule batchLoop_err)
    then show ?thesis
      using False nc
      by (simp only: extractFeatures_def bindE_def fr bind.simps sum.case if_False)
  qed
qed

lemma computeLFCC_batchSize: "computeLFCC (p\<lparr>batchSize := b\<rparr>) = computeLFCC p"
  by (rule ext) (simp add: computeLFCC_def lfccPowerSpectrum_def Let_def)

lemma nextFrame_batchSize: "nextFrame (p\<lparr>batchSize := b\<rparr>) = nextFrame p"
proof -
  have fl: "frameLength (p\<lparr>batchSize := b\<rparr>) = frameLength p" by simp
  show ?thesis by (rule ext)+ (simp only: nextFrame_def fl)
qed

text \<open>Whatever the waveform, a run with batch size \<open>b\<close> ends as the run with the
  instance's batch size does, also where both fail.\<close>

lemma extractFeatures_batchSize:
  assumes "0 < frameStep p" and "0 < batchSize p" and "0 < b"
  shows "extractFeatures (p\<lparr>batchSize := b\<rparr>) audioData = extractFeatures p audioData"
  using assms
  by (simp add: extractFeatures_closed computeLFCC_batchSize nextFrame_batchSize)

lemma computeLFCC_row_length:
  assumes "length f = frameLength p" and "numCoeffs p \<le> frameLength p div 2 + 1"
    and "computeLFCC p [f] = Inr [r]"
  shows "length r = numCoeffs p"
proof -
  have u: "\<forall>g \<in> set [f]. length g = frameLength p" using assms(1) by simp
  have "computeLFCC p [f] = Inr (map (take (numCoeffs p))
             (tf_matMul (elementwise flog (elementwise (\<lambda>v. fadd v (Fin (1 / 10 ^ 6)))
                           (lfccPowerSpectrum p [f])))
                (dctMatrix (frameLength p div 2 + 1))))"
    using assms(2) by (subst computeLFCC_cols[OF _ u]) simp_all
  with assms(3) have "[r] = map (take (numCoeffs p))
             (tf_matMul (elementwise flog (elementwise (\<lambda>v. fadd v (Fin (1 / 10 ^ 6)))
                           (lfccPowerSpectrum p [f])))
                (dctMatrix (frameLength p div 2 + 1)))"
    by simp
  then have "length r = min (numCoeffs p) (cols (dctMatrix (frameLength p div 2 + 1)))"
    by (auto simp: tf_matMul_def elementwise_def lfccPowerSpectrum_def tf_rfft_def tf_mul_def
          Let_def)
  then show ?thesis using assms(2) by (simp add: cols_dctMatrix)
qed

text \<open>
  C6. For every non-empty waveform (and a frame step, batch sizes and a coefficient count
  the class can run with) feature extraction returns a matrix, with one row per frame,
  \<open>\<lceil>L / frameStep\<rceil>\<close> rows of \<open>numCoeffs\<close> coefficients; the matrix is the same for every
  positive batch size \<open>b\<close> as for the instance's own batch size (so batches of 1, of 32
  and of any other size agree); and row \<open>i\<close> is the single row that \<^verbatim>\<open>computeLFCC\<close>
  returns for frame \<open>i\<close> alone, so the rows are in frame order and independent of the
  batch a frame was placed in.
\<close>

theorem batch_size_invariance:
  assumes "0 < frameStep p" and "0 < batchSize p" and "0 < b"
    and "audioData \<noteq> []" and "numCoeffs p \<le> frameLength p div 2 + 1"
  shows "\<exists>frames rows.
           frame p audioData = Some (Inr frames) \<and>
           extractFeatures p audioData = Some (Inr rows) \<and>
           extractFeatures (p\<lparr>batchSize := b\<rparr>) audioData = Some (Inr rows) \<and>
           length frames = nat \<lceil>real (length audioData) / real (frameStep p)\<rceil> \<and>
           length rows = length frames \<and>
           (\<forall>i < length frames.
               computeLFCC p [frames ! i] = Inr [rows ! i] \<and> length (rows ! i) = numCoeffs p)"
proof -
  let ?c = "(length audioData + frameStep p - 1) div frameStep p"
  let ?frames = "map (\<lambda>i. nextFrame p audioData (i * frameStep p)) [0..<?c]"
  let ?R = "\<lambda>f. hd (projr (computeLFCC p [f]))"
  let ?rows = "map ?R ?frames"
  have pos: "0 < ?c"
  proof -
    have "frameStep p \<le> length audioData + frameStep p - 1"
      using assms(4) by (cases audioData) simp_all
    then show ?thesis using assms(1) by (simp add: div_greater_zero_iff)
  qed
  then have ne: "?frames \<noteq> []" by simp
  have 1: "frame p audioData = Some (Inr ?frames)"
    unfolding frame_closed[OF assms(1)] using ne by (simp only: tf_stack_def if_False)
  have 2: "extractFeatures p audioData = Some (Inr ?rows)"
    using assms(4,5) by (simp add: extractFeatures_closed[OF assms(1,2)])
  have 3: "extractFeatures (p\<lparr>batchSize := b\<rparr>) audioData = Some (Inr ?rows)"
    using assms(1,3,4,5)
    by (simp add: extractFeatures_closed computeLFCC_batchSize nextFrame_batchSize)
  have 4: "length ?frames = nat \<lceil>real (length audioData) / real (frameStep p)\<rceil>"
    using count_ceiling[OF assms(1), of "length audioData"] by simp
  have 5: "length ?rows = length ?frames" by simp
  have 6: "computeLFCC p [?frames ! i] = Inr [?rows ! i] \<and> length (?rows ! i) = numCoeffs p"
    if i: "i < length ?frames" for i
  proof -
    from i have "i < ?c" by simp
    then have "i * frameStep p < length audioData"
      using assms(1) by (intro start_in_range)
    then have len: "length (?frames ! i) = frameLength p"
      using i by (simp add: length_nextFrame)
    then have "\<forall>f \<in> set [?frames ! i]. length f = frameLength p" by simp
    then have "computeLFCC p [?frames ! i] = Inr (map ?R [?frames ! i])"
      using assms(5) by (subst computeLFCC_rowwise) simp_all
    then have a: "computeLFCC p [?frames ! i] = Inr [?rows ! i]"
      using i by simp
    from computeLFCC_row_length[OF len assms(5) a] a show ?thesis by simp
  qed
  from 1 2 3 4 5 6 show ?thesis by blast
qed

theorem batch_size_invariance_witness:
  "0 < frameStep newAudioProcessor \<and> 0 < batchSize newAudioProcessor \<and> (0::nat) < 1 \<and>
   replicate 16000 (Fin 0) \<noteq> [] \<and>
   numCoeffs newAudioProcessor \<le> frameLength newAudioProcessor div 2 + 1 \<and>
   (\<exists>rows. extractFeatures newAudioProcessor (replicate 16000 (Fin 0)) = Some (Inr rows) \<and>
      extractFeatures (newAudioProcessor\<lparr>batchSize := 1\<rparr>) (replicate 16000 (Fin 0))
        = Some (Inr rows) \<and>
      length rows = 100 \<and> length (rows ! 0) = 20 \<and> length (rows ! 99) = 20)"
proof -
  have h: "0 < frameStep newAudioProcessor" "0 < batchSize newAudioProcessor" "(0::nat) < 1"
    "replicate 16000 (Fin 0) \<noteq> []"
    "numCoeffs newAudioProcessor \<le> frameLength newAudioProcessor div 2 + 1"
    by (simp_all add: newAudioProcessor_def)
  from batch_size_invariance[OF h]
  obtain frames rows where
    e: "extractFeatures newAudioProcessor (replicate 16000 (Fin 0)) = Some (Inr rows)"
    and e1: "extractFeatures (newAudioProcessor\<lparr>batchSize := 1\<rparr>) (replicate 16000 (Fin 0))
               = Some (Inr rows)"
    and lf: "length frames
               = nat \<lceil>real (length (replicate 16000 (Fin 0))) / real (frameStep newAudioProcessor)\<rceil>"
    and lr: "length rows = length frames"
    and r: "\<forall>i < length frames. computeLFCC newAudioProcessor [frames ! i] = Inr [rows ! i]
               \<and> length (rows ! i) = numCoeffs newAudioProcessor"
    by blast
  have l: "length frames = 100"
    using lf by (simp add: newAudioProcessor_def)
  from r l have "length (rows ! 0) = 20" "length (rows ! 99) = 20"
    by (simp_all add: newAudioProcessor_def)
  with h e e1 lr l show ?thesis by auto
qed

end
